theory Spec2Isabelle
  imports Complex_Main "HOL-Library.Word"
begin

unbundle bit_operations_syntax

section \<open>Data model\<close>

text \<open>
  The library \<^verbatim>\<open>matrix.h\<close> stores a matrix as two \<^verbatim>\<open>size_t\<close> dimensions and a pointer to a
  flat row-major buffer of \<^verbatim>\<open>double\<close>. The embedding fixes \<^verbatim>\<open>size_t\<close> at 64 bits (the width of
  the \<^verbatim>\<open>uint64_t\<close> bit sets the library itself uses), so every index computation wraps
  around at \<open>2 ^ 64\<close> exactly as the C arithmetic does. The buffer a matrix owns is a list;
  the \<^verbatim>\<open>NULL\<close> pointer is \<open>None\<close>. Every matrix value carries its own buffer, which is the
  spec's ownership rule: no two matrices share storage. The cell type is a type parameter: the transposition code
  only moves cells, the arithmetic code needs \<open>+\<close>, \<open>-\<close>, \<open>*\<close> and \<open>0\<close> and no law about them,
  and only the uniform fill, whose claim is about an interval, computes on the type
  \<open>double\<close> of the binary64 values.

  An \<^verbatim>\<open>assert\<close> that fails is the result \<open>Inl AssertFail\<close>. An array access outside the
  buffer, or through \<^verbatim>\<open>NULL\<close>, is undefined behaviour in C; the embedding makes it the result
  \<open>Inl BadAccess\<close>. A loop that does not terminate is the value \<open>None\<close>. The functions take
  the struct itself, so the pointer to it is never \<^verbatim>\<open>NULL\<close>, and they return the struct as
  they leave it. The limits of the machine other than the width of its integers (the size of
  the stack, the memory that \<^verbatim>\<open>malloc\<close> can give) are not part of the embedding.
\<close>

type_synonym size_t = "64 word"
type_synonym uint64_t = "64 word"

datatype error = AssertFail | BadAccess

record 'a matrix =
  height :: size_t
  width :: size_t
  "values" :: "'a list option"

text \<open>The spec's validity invariant: a non-null buffer of exactly \<open>height * width\<close> cells,
  a count that a \<^verbatim>\<open>size_t\<close> can hold.\<close>

definition valid_matrix :: "'a matrix \<Rightarrow> bool" where
  "valid_matrix m =
     (case values m of None \<Rightarrow> False
      | Some vs \<Rightarrow> length vs = unat (height m) * unat (width m)
                 \<and> unat (height m) * unat (width m) < 2 ^ 64)"

text \<open>\<^verbatim>\<open>m->values[i]\<close> as an rvalue and as the target of an assignment.\<close>

definition buf_read :: "'a matrix \<Rightarrow> size_t \<Rightarrow> error + 'a" where
  "buf_read m i =
     (case values m of None \<Rightarrow> Inl BadAccess
      | Some vs \<Rightarrow> if unat i < length vs then Inr (vs ! unat i) else Inl BadAccess)"

definition buf_write :: "'a matrix \<Rightarrow> size_t \<Rightarrow> 'a \<Rightarrow> error + 'a matrix" where
  "buf_write m i x =
     (case values m of None \<Rightarrow> Inl BadAccess
      | Some vs \<Rightarrow> if unat i < length vs then Inr (m\<lparr>values := Some (vs[unat i := x])\<rparr>)
                 else Inl BadAccess)"

text \<open>\<^verbatim>\<open>for (size_t i = i0; i < n; ++i) body\<close>, stopping at the first failure of the body.\<close>

function for_loop ::
  "size_t \<Rightarrow> size_t \<Rightarrow> (size_t \<Rightarrow> 's \<Rightarrow> error + 's) \<Rightarrow> 's \<Rightarrow> error + 's" where
  "for_loop i n body s =
     (if i < n then (case body i s of Inl e \<Rightarrow> Inl e | Inr s' \<Rightarrow> for_loop (i + 1) n body s')
      else Inr s)"
  by pat_completeness auto
termination
proof (relation "measure (\<lambda>(i, n, body, s). unat n - unat i)")
  show "wf (measure (\<lambda>(i, n, body, s). unat n - unat i))" by simp
next
  fix i n :: size_t and body :: "size_t \<Rightarrow> 's \<Rightarrow> error + 's" and s s' :: 's
  assume "i < n"
  then have "unat i < unat n" by (simp add: word_less_nat_alt)
  moreover have "unat n < 2 ^ LENGTH(64)" by (rule unsigned_less)
  ultimately have "unat i + unat (1 :: size_t) < 2 ^ LENGTH(64)" by simp
  then have "unat (i + 1) = unat i + unat (1 :: size_t)" by (simp only: unat_add_lem)
  with \<open>unat i < unat n\<close> have "unat n - unat (i + 1) < unat n - unat i" by simp
  then show "((i + 1, n, body, s'), (i, n, body, s))
      \<in> measure (\<lambda>(i, n, body, s). unat n - unat i)" by simp
qed

section \<open>Construction, destruction, accessors\<close>


text \<open>\<^verbatim>\<open>matrix_del\<close> returns the updated struct together with the buffer it handed to
  \<^verbatim>\<open>free\<close>; a failed assertion hands nothing to \<^verbatim>\<open>free\<close>.\<close>

definition matrix_del :: "'a matrix \<Rightarrow> error + ('a matrix \<times> 'a list)" where
  "matrix_del m =
     (case values m of None \<Rightarrow> Inl AssertFail
      | Some buf \<Rightarrow> Inr (m\<lparr>values := None\<rparr>, buf))"

definition matrix_len :: "'a matrix \<Rightarrow> size_t" where
  "matrix_len m = height m * width m"

definition matrix_get :: "'a matrix \<Rightarrow> size_t \<Rightarrow> size_t \<Rightarrow> error + 'a" where
  "matrix_get m row col =
     (if values m = None then Inl AssertFail
      else if \<not> row < height m then Inl AssertFail
      else if \<not> col < width m then Inl AssertFail
      else buf_read m (row * width m + col))"

definition matrix_set :: "'a matrix \<Rightarrow> size_t \<Rightarrow> size_t \<Rightarrow> 'a \<Rightarrow> error + 'a matrix" where
  "matrix_set m row col v =
     (if values m = None then Inl AssertFail
      else if \<not> row < height m then Inl AssertFail
      else if \<not> col < width m then Inl AssertFail
      else buf_write m (row * width m + col) v)"

text \<open>
  \<^verbatim>\<open>matrix_print\<close>: \<^verbatim>\<open>fprintf(sink, "%f ", x)\<close> appends the rendering of \<open>x\<close> and one space,
  \<^verbatim>\<open>fputc('\n', sink)\<close> appends a newline. The sink is the string written so far. The
  rendering of a \<^verbatim>\<open>double\<close> under \<^verbatim>\<open>%f\<close> is the C library's, so it is the parameter \<open>fmt\<close>.
\<close>

definition matrix_print :: "('a \<Rightarrow> string) \<Rightarrow> 'a matrix \<Rightarrow> string \<Rightarrow> error + string" where
  "matrix_print fmt m sink =
     (if values m = None then Inl AssertFail
      else
        for_loop 0 (height m) (\<lambda>row sink.
          case for_loop 0 (width m) (\<lambda>col sink.
                 case matrix_get m row col of Inl e \<Rightarrow> Inl e
                 | Inr x \<Rightarrow> Inr (sink @ fmt x @ [CHR '' ''])) sink of
            Inl e \<Rightarrow> Inl e
          | Inr sink \<Rightarrow> Inr (sink @ [CHR 0x0A])) sink)"

section \<open>Binary64 arithmetic\<close>

text \<open>
  The cells and the bounds of the uniform fill are \<^verbatim>\<open>double\<close>, taken here to be the binary64
  format of IEEE 754 under its default rounding, to nearest with ties to the even significand,
  with every operation of the source rounded once to that format: no wider intermediate
  precision, and no fusing of the multiplication with the addition. A finite value is a
  sign (\<open>True\<close> for negative) and a magnitude, so both zeros exist; an infinity carries its
  sign; the NaNs are one value.
\<close>

datatype double = Finite bool real | Infinity bool | NaN

text \<open>The binade of a positive real: \<open>ilog2 x\<close> is the integer \<open>k\<close> with
  \<open>2 ^ k \<le> x < 2 ^ (k + 1)\<close>. It is \<open>0\<close> at \<open>x \<le> 0\<close>, where only \<open>ilog2 0\<close> is ever used.\<close>

function ilog2 :: "real \<Rightarrow> int" where
  "ilog2 x = (if x \<le> 0 then 0 else if x < 1 then ilog2 (2 * x) - 1
              else if 2 \<le> x then ilog2 (x / 2) + 1 else 0)"
  by pat_completeness auto
termination
proof (relation "measure (\<lambda>x. nat \<bar>\<lfloor>log 2 x\<rfloor>\<bar>)")
  show "wf (measure (\<lambda>x. nat \<bar>\<lfloor>log 2 x\<rfloor>\<bar>))" by simp
next
  fix x :: real assume "\<not> x \<le> 0" "x < 1"
  then have "log 2 (2 * x) = log 2 x + 1" "log 2 x < 0" by (simp_all add: log_mult)
  then have "\<lfloor>log 2 (2 * x)\<rfloor> = \<lfloor>log 2 x\<rfloor> + 1" "\<lfloor>log 2 x\<rfloor> < 0"
    by (simp_all add: floor_less_iff)
  then show "(2 * x, x) \<in> measure (\<lambda>x. nat \<bar>\<lfloor>log 2 x\<rfloor>\<bar>)"
    unfolding in_measure by linarith
next
  fix x :: real assume "\<not> x \<le> 0" "\<not> x < 1" "2 \<le> x"
  then have "log 2 (x / 2) = log 2 x - 1" "1 \<le> log 2 x" by (simp_all add: log_divide le_log_iff)
  then have "\<lfloor>log 2 (x / 2)\<rfloor> = \<lfloor>log 2 x\<rfloor> - 1" "1 \<le> \<lfloor>log 2 x\<rfloor>"
    by (simp_all add: le_floor_iff)
  then show "(x / 2, x) \<in> measure (\<lambda>x. nat \<bar>\<lfloor>log 2 x\<rfloor>\<bar>)"
    unfolding in_measure by linarith
qed

text \<open>The nearest integer, a tie going to the even one.\<close>

definition round_half_even :: "real \<Rightarrow> int" where
  "round_half_even t =
     (let f = \<lfloor>t\<rfloor>; d = t - of_int f
      in if d < 1 / 2 then f else if 1 / 2 < d then f + 1 else if even f then f else f + 1)"

text \<open>
  Rounding of a magnitude. A significand has 53 bits, so a magnitude of the binade \<open>k\<close> is
  rounded to a multiple of \<open>2 ^ (k - 52)\<close>; the exponent of the subnormal numbers,
  \<open>-1074\<close>, is the least there is. The format ends below \<open>2 ^ 1024\<close>: a magnitude that
  rounds to \<open>2 ^ 1024\<close> or more becomes the infinity of its sign.
\<close>

definition round_magnitude :: "real \<Rightarrow> real" where
  "round_magnitude x =
     (let e = max (ilog2 x - 52) (- 1074)
      in of_int (round_half_even (x / 2 powi e)) * 2 powi e)"

definition round_double :: "bool \<Rightarrow> real \<Rightarrow> double" where
  "round_double s x =
     (let y = round_magnitude x in if 2 ^ 1024 \<le> y then Infinity s else Finite s y)"









section \<open>Filling and elementwise arithmetic\<close>



definition matrix_add :: "'a::plus matrix \<Rightarrow> 'a matrix \<Rightarrow> error + 'a matrix" where
  "matrix_add a b =
     (if values a = None then Inl AssertFail
      else if values b = None then Inl AssertFail
      else if height a \<noteq> height b then Inl AssertFail
      else if width a \<noteq> width b then Inl AssertFail
      else
        let end = matrix_len a
        in for_loop 0 end (\<lambda>i a.
             case buf_read a i of Inl e \<Rightarrow> Inl e
             | Inr x \<Rightarrow>
                 (case buf_read b i of Inl e \<Rightarrow> Inl e
                  | Inr y \<Rightarrow> buf_write a i (x + y))) a)"

definition matrix_sub :: "'a::minus matrix \<Rightarrow> 'a matrix \<Rightarrow> error + 'a matrix" where
  "matrix_sub a b =
     (if values a = None then Inl AssertFail
      else if values b = None then Inl AssertFail
      else if height a \<noteq> height b then Inl AssertFail
      else if width a \<noteq> width b then Inl AssertFail
      else
        let end = matrix_len a
        in for_loop 0 end (\<lambda>i a.
             case buf_read a i of Inl e \<Rightarrow> Inl e
             | Inr x \<Rightarrow>
                 (case buf_read b i of Inl e \<Rightarrow> Inl e
                  | Inr y \<Rightarrow> buf_write a i (x - y))) a)"

section \<open>Matrix multiplication\<close>



section \<open>In-place transposition\<close>

subsection \<open>Bit tracking\<close>

text \<open>\<^verbatim>\<open>(uint64_t)1 << idx\<close> is \<open>push_bit (unat idx) 1\<close>. The shift is only defined in C for
  \<open>idx < 64\<close>; the callers below stay in that range.\<close>

definition matrix__set_bit :: "uint64_t \<Rightarrow> uint64_t \<Rightarrow> uint64_t" where
  "matrix__set_bit number idx = number OR push_bit (unat idx) 1"

definition matrix__has_bit :: "uint64_t \<Rightarrow> uint64_t \<Rightarrow> bool" where
  "matrix__has_bit number idx = (number AND push_bit (unat idx) 1 \<noteq> 0)"

text \<open>The array variants do not check bounds, as their comments in the source say.\<close>

definition matrix__bitset_set :: "uint64_t list \<Rightarrow> uint64_t \<Rightarrow> uint64_t list" where
  "matrix__bitset_set bitset idx =
     (let h = idx div 64; l = idx mod 64
      in bitset[unat h := (bitset ! unat h) OR push_bit (unat l) 1])"

definition matrix__bitset_has :: "uint64_t list \<Rightarrow> uint64_t \<Rightarrow> bool" where
  "matrix__bitset_has bitset idx =
     (let h = idx div 64; l = idx mod 64
      in (bitset ! unat h) AND push_bit (unat l) 1 \<noteq> 0)"

subsection \<open>The cycle-following loops\<close>

text \<open>
  \<^verbatim>\<open>matrix__transpose_rectangle\<close> and \<^verbatim>\<open>matrix__transpose_small_rectangle\<close> contain the same
  two nested loops; the only difference is the call that records an index
  (\<^verbatim>\<open>matrix__bitset_set\<close> on an array, \<^verbatim>\<open>matrix__set_bit\<close> on a word) and the call that tests
  one. The loops are written once, with these two calls as the parameters \<open>mark\<close> and \<open>has\<close>.

  \<open>cycle_walk\<close> is the \<^verbatim>\<open>do { ... } while (i != cycle_begin)\<close> loop, entered with \<open>temp\<close>
  already loaded. Nothing in the source bounds its number of iterations, so it is a
  partial function: \<open>None\<close> means that it runs forever. The local \<^verbatim>\<open>size\<close> of the source is
  \<open>sz\<close> here (\<open>size\<close> is a constant of HOL). The loops are only entered with \<open>1 < sz\<close>, so
  the \<^verbatim>\<open>%\<close> of the source never divides by zero.
\<close>

partial_function (option) cycle_walk ::
  "('b \<Rightarrow> uint64_t \<Rightarrow> 'b) \<Rightarrow> size_t \<Rightarrow> size_t \<Rightarrow> 'a matrix \<Rightarrow> 'b \<Rightarrow> size_t \<Rightarrow> 'a
     \<Rightarrow> (error + ('a matrix \<times> 'b)) option" where
  "cycle_walk mark sz cycle_begin m bs i temp =
     (let next = (i * height m) mod sz in
      case buf_read m next of Inl e \<Rightarrow> Some (Inl e)
      | Inr swap_temp \<Rightarrow>
          (case buf_write m next temp of Inl e \<Rightarrow> Some (Inl e)
           | Inr m' \<Rightarrow>
               let bs' = mark bs i in
               if next \<noteq> cycle_begin then cycle_walk mark sz cycle_begin m' bs' next swap_temp
               else Some (Inr (m', bs'))))"

declare cycle_walk.simps [code]

text \<open>\<^verbatim>\<open>for (i = 1; i < size && has(bitset, i); ++i);\<close> started at \<open>i\<close>; the result is the
  final value of \<open>i\<close>.\<close>

function find_next :: "('b \<Rightarrow> uint64_t \<Rightarrow> bool) \<Rightarrow> 'b \<Rightarrow> size_t \<Rightarrow> size_t \<Rightarrow> size_t" where
  "find_next has bs sz i = (if i < sz \<and> has bs i then find_next has bs sz (i + 1) else i)"
  by pat_completeness auto
termination
proof (relation "measure (\<lambda>(has, bs, sz, i). unat sz - unat i)")
  show "wf (measure (\<lambda>(has, bs, sz, i). unat sz - unat i))" by simp
next
  fix has :: "'b \<Rightarrow> uint64_t \<Rightarrow> bool" and bs :: 'b and sz i :: size_t
  assume "i < sz \<and> has bs i"
  then have "i < sz" by simp
  then have "unat i < unat sz" by (simp add: word_less_nat_alt)
  moreover have "unat sz < 2 ^ LENGTH(64)" by (rule unsigned_less)
  ultimately have "unat i + unat (1 :: size_t) < 2 ^ LENGTH(64)" by simp
  then have "unat (i + 1) = unat i + unat (1 :: size_t)" by (simp only: unat_add_lem)
  with \<open>unat i < unat sz\<close> have "unat sz - unat (i + 1) < unat sz - unat i" by simp
  then show "((has, bs, sz, i + 1), (has, bs, sz, i))
      \<in> measure (\<lambda>(has, bs, sz, i). unat sz - unat i)" by simp
qed

text \<open>The outer \<^verbatim>\<open>while (i < size)\<close> loop.\<close>

partial_function (option) cycle_loop ::
  "('b \<Rightarrow> uint64_t \<Rightarrow> 'b) \<Rightarrow> ('b \<Rightarrow> uint64_t \<Rightarrow> bool) \<Rightarrow> size_t \<Rightarrow> 'a matrix \<Rightarrow> 'b \<Rightarrow> size_t
     \<Rightarrow> (error + 'a matrix) option" where
  "cycle_loop mark has sz m bs i =
     (if i < sz then
        (case buf_read m i of Inl e \<Rightarrow> Some (Inl e)
         | Inr temp \<Rightarrow>
             (case cycle_walk mark sz i m bs i temp of None \<Rightarrow> None
              | Some (Inl e) \<Rightarrow> Some (Inl e)
              | Some (Inr (m', bs')) \<Rightarrow> cycle_loop mark has sz m' bs' (find_next has bs' sz 1)))
      else Some (Inr m))"

declare cycle_loop.simps [code]

subsection \<open>The four paths and the dispatch\<close>

definition matrix__transpose_rectangle :: "'a matrix \<Rightarrow> (error + 'a matrix) option" where
  "matrix__transpose_rectangle m =
     (let sz = matrix_len m - 1;
          bitset_sz = sz div 64 + 1;
          bitset = replicate (unat bitset_sz) (0 :: uint64_t)
      in case cycle_loop matrix__bitset_set matrix__bitset_has sz m bitset 1 of None \<Rightarrow> None
         | Some (Inl e) \<Rightarrow> Some (Inl e)
         | Some (Inr m') \<Rightarrow> Some (Inr (m'\<lparr>height := width m', width := height m'\<rparr>)))"

definition matrix__transpose_small_rectangle :: "'a matrix \<Rightarrow> (error + 'a matrix) option" where
  "matrix__transpose_small_rectangle m =
     (let swapped_set = (0 :: uint64_t);
          sz = matrix_len m - 1
      in if \<not> sz < 64 then Some (Inl AssertFail)
         else
           let swapped_set = matrix__set_bit swapped_set 0;
               swapped_set = matrix__set_bit swapped_set sz
           in case cycle_loop matrix__set_bit matrix__has_bit sz m swapped_set 1 of None \<Rightarrow> None
              | Some (Inl e) \<Rightarrow> Some (Inl e)
              | Some (Inr m') \<Rightarrow> Some (Inr (m'\<lparr>height := width m', width := height m'\<rparr>)))"

definition matrix__transpose_square :: "'a matrix \<Rightarrow> error + 'a matrix" where
  "matrix__transpose_square m =
     (if width m \<noteq> height m then Inl AssertFail
      else
        for_loop 0 (height m - 1) (\<lambda>i m.
          for_loop (i + 1) (height m) (\<lambda>j m.
            case matrix_get m i j of Inl e \<Rightarrow> Inl e
            | Inr temp \<Rightarrow>
                (case matrix_get m j i of Inl e \<Rightarrow> Inl e
                 | Inr x \<Rightarrow>
                     (case matrix_set m i j x of Inl e \<Rightarrow> Inl e
                      | Inr m \<Rightarrow> matrix_set m j i temp))) m) m)"

text \<open>\<^verbatim>\<open>int temp = m->height\<close> converts a \<^verbatim>\<open>size_t\<close> to a 32-bit \<^verbatim>\<open>int\<close> (keeping the low 32 bits,
  as gcc and clang do); \<^verbatim>\<open>m->width = temp\<close> converts it back with sign extension.\<close>

definition matrix__transpose_single_col_or_row :: "'a matrix \<Rightarrow> error + 'a matrix" where
  "matrix__transpose_single_col_or_row m =
     (if \<not> (width m = 1 \<or> height m = 1) then Inl AssertFail
      else
        let temp = (ucast (height m) :: 32 word)
        in Inr (m\<lparr>height := width m, width := scast temp\<rparr>))"

definition matrix_transpose :: "'a matrix \<Rightarrow> (error + 'a matrix) option" where
  "matrix_transpose m =
     (if values m = None then Some (Inl AssertFail)
      else if width m = 1 \<or> height m = 1 then Some (matrix__transpose_single_col_or_row m)
      else if width m = height m then Some (matrix__transpose_square m)
      else if matrix_len m \<le> 64 then matrix__transpose_small_rectangle m
      else matrix__transpose_rectangle m)"

section \<open>Specification-side definitions\<close>


text \<open>The spec's permutation \<open>\<pi>(i) = (i * H) mod size\<close>, as the source computes it in
  \<^verbatim>\<open>size_t\<close>: \<^verbatim>\<open>(i * m->height) % size\<close>.\<close>

abbreviation perm :: "size_t \<Rightarrow> size_t \<Rightarrow> size_t \<Rightarrow> size_t" where
  "perm h sz i \<equiv> (i * h) mod sz"




section \<open>Loop rules\<close>

declare for_loop.simps [simp del]
declare find_next.simps [simp del]
declare ilog2.simps [simp del]

lemma unat_plus1: "(i::size_t) < n \<Longrightarrow> unat (i + 1) = Suc (unat i)"
proof -
  assume "i < n"
  then have "unat i < unat n" by (simp add: word_less_nat_alt)
  moreover have "unat n < 2 ^ LENGTH(64)" by (rule unsigned_less)
  ultimately have "unat i + unat (1 :: size_t) < 2 ^ LENGTH(64)" by simp
  then have "unat (i + 1) = unat i + unat (1 :: size_t)" by (simp only: unat_add_lem)
  then show ?thesis by simp
qed

lemma for_loop_rule:
  assumes "i0 \<le> n" and "I i0 s0"
    and "\<And>i s. i < n \<Longrightarrow> I i s \<Longrightarrow> \<exists>s'. body i s = Inr s' \<and> I (i + 1) s'"
  shows "\<exists>s'. for_loop i0 n body s0 = Inr s' \<and> I n s'"
  using assms
proof (induction i0 n body s0 rule: for_loop.induct)
  case (1 i n body s)
  show ?case
  proof (cases "i < n")
    case True
    from "1.prems"(3) [OF True "1.prems"(2)] obtain s' where s': "body i s = Inr s'" "I (i + 1) s'" by blast
    from True have "i + 1 \<le> n" by (rule inc_le)
    from "1.IH" [OF True s'(1) this s'(2) "1.prems"(3)] s' True show ?thesis
      by (subst for_loop.simps) simp
  next
    case False
    with "1.prems" have "i = n" by simp
    with "1.prems" show ?thesis by (subst for_loop.simps) simp
  qed
qed

lemma unat_matrix_len: "valid_matrix m \<Longrightarrow> unat (matrix_len m) = unat (height m) * unat (width m)"
  by (auto simp: valid_matrix_def matrix_len_def unat_mult_lem [THEN iffD1] split: option.splits)

lemma flat_index_less: "(r::nat) < H \<Longrightarrow> c < W \<Longrightarrow> r * W + c < H * W"
proof -
  assume "r < H" "c < W"
  then have "r * W + c < Suc r * W" by simp
  also from \<open>r < H\<close> have "Suc r * W \<le> H * W" by (intro mult_le_mono1) simp
  finally show ?thesis .
qed

lemma unat_flat_index:
  fixes row col h w :: size_t
  assumes "row < h" "col < w" "unat h * unat w < 2 ^ 64"
  shows "unat (row * w + col) = unat row * unat w + unat col"
proof -
  from assms(1,2) have rc: "unat row < unat h" "unat col < unat w" by (simp_all add: word_less_nat_alt)
  then have lt: "unat row * unat w + unat col < unat h * unat w" by (rule flat_index_less)
  with assms(3) have "unat row * unat w + unat col < 2 ^ LENGTH(64)" by simp
  moreover then have "unat row * unat w < 2 ^ LENGTH(64)" by simp
  then have "unat (row * w) = unat row * unat w" by (simp only: unat_mult_lem)
  ultimately show ?thesis by (simp add: unat_add_lem [THEN iffD1])
qed

lemma matrix_get_valid:
  assumes "valid_matrix m" "values m = Some vs" "row < height m" "col < width m"
  shows "matrix_get m row col = Inr (vs ! (unat row * unat (width m) + unat col))"
proof -
  from assms have len: "length vs = unat (height m) * unat (width m)" "unat (height m) * unat (width m) < 2 ^ 64"
    by (simp_all add: valid_matrix_def)
  from assms(3,4) have "unat row < unat (height m)" "unat col < unat (width m)" by (simp_all add: word_less_nat_alt)
  then have "unat row * unat (width m) + unat col < length vs" unfolding len(1) by (rule flat_index_less)
  with assms unat_flat_index [OF assms(3,4) len(2)] show ?thesis
    by (simp add: matrix_get_def buf_read_def)
qed

lemma matrix_set_valid:
  assumes "valid_matrix m" "values m = Some vs" "row < height m" "col < width m"
  shows "matrix_set m row col v = Inr (m\<lparr>values := Some (vs[unat row * unat (width m) + unat col := v])\<rparr>)"
proof -
  from assms have len: "length vs = unat (height m) * unat (width m)" "unat (height m) * unat (width m) < 2 ^ 64"
    by (simp_all add: valid_matrix_def)
  from assms(3,4) have "unat row < unat (height m)" "unat col < unat (width m)" by (simp_all add: word_less_nat_alt)
  then have "unat row * unat (width m) + unat col < length vs" unfolding len(1) by (rule flat_index_less)
  with assms unat_flat_index [OF assms(3,4) len(2)] show ?thesis
    by (simp add: matrix_set_def buf_write_def)
qed

lemma matrix_add_loop:
  fixes a b :: "'a::plus matrix" and f :: "'a \<Rightarrow> 'a \<Rightarrow> 'a"
  assumes a: "values a = Some va" and b: "values b = Some vb"
    and la: "length va = unat n" and lb: "length vb = unat n"
  shows "for_loop 0 n (\<lambda>i a.
             case buf_read a i of Inl e \<Rightarrow> Inl e
             | Inr x \<Rightarrow>
                 (case buf_read b i of Inl e \<Rightarrow> Inl e
                  | Inr y \<Rightarrow> buf_write a i (f x y))) a
         = Inr (a\<lparr>values := Some (map2 f va vb)\<rparr>)"
proof -
  let ?body = "\<lambda>i a. case buf_read a i of Inl e \<Rightarrow> Inl e
             | Inr x \<Rightarrow>
                 (case buf_read b i of Inl e \<Rightarrow> Inl e
                  | Inr y \<Rightarrow> buf_write a i (f x y))"
  let ?I = "\<lambda>i a'. \<exists>vs. a' = a\<lparr>values := Some vs\<rparr> \<and> length vs = unat n
        \<and> (\<forall>k < unat n. vs ! k = (if k < unat i then f (va ! k) (vb ! k) else va ! k))"
  have "\<exists>s'. for_loop 0 n ?body a = Inr s' \<and> ?I n s'"
  proof (rule for_loop_rule [where I = ?I])
    show "0 \<le> n" by simp
    show "?I 0 a" using a la by (intro exI [of _ va]) simp
  next
    fix i s assume i: "i < n" and "?I i s"
    then obtain vs where vs: "s = a\<lparr>values := Some vs\<rparr>" "length vs = unat n"
      "\<forall>k < unat n. vs ! k = (if k < unat i then f (va ! k) (vb ! k) else va ! k)" by blast
    from i have ui: "unat i < unat n" by (simp add: word_less_nat_alt)
    have "?body i s = Inr (a\<lparr>values := Some (vs[unat i := f (va ! unat i) (vb ! unat i)])\<rparr>)"
      using vs ui b lb by (simp add: buf_read_def buf_write_def)
    moreover have "?I (i + 1) (a\<lparr>values := Some (vs[unat i := f (va ! unat i) (vb ! unat i)])\<rparr>)"
      using vs ui by (intro exI [of _ "vs[unat i := f (va ! unat i) (vb ! unat i)]"])
        (auto simp: unat_plus1 [OF i] nth_list_update less_Suc_eq)
    ultimately show "\<exists>s'. ?body i s = Inr s' \<and> ?I (i + 1) s'" by blast
  qed
  then obtain vs where r: "for_loop 0 n ?body a = Inr (a\<lparr>values := Some vs\<rparr>)"
    and len: "length vs = unat n" and el: "\<forall>k < unat n. vs ! k = f (va ! k) (vb ! k)" by auto
  have "vs = map2 f va vb"
    using len el la lb by (intro nth_equalityI) auto
  with r show ?thesis by simp
qed

section \<open>Elementwise addition and subtraction (claim C7)\<close>

text \<open>
  Claim C7. \<^verbatim>\<open>matrix_add\<close> and \<^verbatim>\<open>matrix_sub\<close> fail an assertion whenever the operands differ
  in height or in width, so no result is produced; on two valid matrices of the same
  shape they succeed, and the buffer of \<open>a\<close> becomes the cell-by-cell sum (difference) of
  the two buffers, the cell \<open>(i, j)\<close> of both operands being the flat index \<open>i * width + j\<close>.
  The operand \<open>b\<close> is only read: the functions have no output for it.
\<close>

theorem matrix_add_sub_shapes:
  fixes a b :: "'a::{plus,minus} matrix"
  shows "(height a \<noteq> height b \<or> width a \<noteq> width b \<longrightarrow>
            matrix_add a b = Inl AssertFail \<and> matrix_sub a b = Inl AssertFail)
       \<and> (valid_matrix a \<and> valid_matrix b \<and> height a = height b \<and> width a = width b
            \<and> values a = Some va \<and> values b = Some vb \<longrightarrow>
            matrix_add a b = Inr (a\<lparr>values := Some (map2 (+) va vb)\<rparr>)
            \<and> matrix_sub a b = Inr (a\<lparr>values := Some (map2 (-) va vb)\<rparr>))"
proof (intro conjI impI)
  assume "height a \<noteq> height b \<or> width a \<noteq> width b"
  then show "matrix_add a b = Inl AssertFail" "matrix_sub a b = Inl AssertFail"
    by (auto simp: matrix_add_def matrix_sub_def)
next
  assume h: "valid_matrix a \<and> valid_matrix b \<and> height a = height b \<and> width a = width b
            \<and> values a = Some va \<and> values b = Some vb"
  then have la: "length va = unat (matrix_len a)" and lb: "length vb = unat (matrix_len a)"
    using unat_matrix_len [of a] unat_matrix_len [of b]
    by (auto simp: valid_matrix_def matrix_len_def)
  from h la lb show "matrix_add a b = Inr (a\<lparr>values := Some (map2 (+) va vb)\<rparr>)"
    by (simp add: matrix_add_def matrix_add_loop [where f = "(+)"])
  from h la lb show "matrix_sub a b = Inr (a\<lparr>values := Some (map2 (-) va vb)\<rparr>)"
    by (simp add: matrix_sub_def matrix_add_loop [where f = "(-)"])
qed

theorem matrix_add_sub_shapes_witness:
  "matrix_add \<lparr>height = 2, width = 2, values = Some [1, 2, - 1, - 1 / 2 :: real]\<rparr>
              \<lparr>height = 2, width = 2, values = Some [1, 0, 3, 5 / 2]\<rparr>
     = Inr \<lparr>height = 2, width = 2, values = Some [2, 2, 2, 2]\<rparr>
   \<and> matrix_sub \<lparr>height = 2, width = 2, values = Some [1, 2, - 1, - 1 / 2 :: real]\<rparr>
              \<lparr>height = 2, width = 2, values = Some [1, 0, 3, 5 / 2]\<rparr>
     = Inr \<lparr>height = 2, width = 2, values = Some [0, 2, - 4, - 3]\<rparr>
   \<and> matrix_add \<lparr>height = 2, width = 2, values = Some [1, 2, 3, 4 :: real]\<rparr>
              \<lparr>height = 3, width = 3, values = Some [1, 2, 3, 4, 5, 6, 7, 8, 9]\<rparr>
     = Inl AssertFail
   \<and> matrix_sub \<lparr>height = 2, width = 2, values = Some [1, 2, 3, 4 :: real]\<rparr>
              \<lparr>height = 3, width = 3, values = Some [1, 2, 3, 4, 5, 6, 7, 8, 9]\<rparr>
     = Inl AssertFail"
  using matrix_add_sub_shapes [of "\<lparr>height = 2, width = 2, values = Some [1, 2, - 1, - 1 / 2 :: real]\<rparr>"
      "\<lparr>height = 2, width = 2, values = Some [1, 0, 3, 5 / 2]\<rparr>" "[1, 2, - 1, - 1 / 2]" "[1, 0, 3, 5 / 2]"]
    matrix_add_sub_shapes [of "\<lparr>height = 2, width = 2, values = Some [1, 2, 3, 4 :: real]\<rparr>"
      "\<lparr>height = 3, width = 3, values = Some [1, 2, 3, 4, 5, 6, 7, 8, 9]\<rparr>"]
  by (simp add: valid_matrix_def)

section \<open>Uniform fill (claim C3)\<close>


subsection \<open>Rounding\<close>

text \<open>Powers of two with integer exponents.\<close>

lemma pw_pos: "0 < (2::real) powi e"
  by (simp add: zero_less_power_int)

lemma pw_add: "(2::real) powi (a + b) = 2 powi a * 2 powi b"
  by (simp add: power_int_add)

lemma pw_mono: "a \<le> b \<Longrightarrow> (2::real) powi a \<le> 2 powi b"
  by (simp add: power_int_increasing)

lemma pw_less_cancel: "(2::real) powi a < 2 powi b \<Longrightarrow> a < b"
  using pw_mono [of b a] by (cases "a < b") simp_all

lemma pw_Suc: "(2::real) powi (a + 1) = 2 * 2 powi a"
  by (simp add: pw_add)

lemma ilog2_bounds:
  "0 < x \<Longrightarrow> 2 powi (ilog2 x) \<le> x \<and> x < 2 powi (ilog2 x + 1)"
proof (induction x rule: ilog2.induct)
  case (1 x)
  show ?case
  proof (cases "x < 1")
    case True
    with 1 have ih: "2 powi (ilog2 (2 * x)) \<le> 2 * x \<and> 2 * x < 2 powi (ilog2 (2 * x) + 1)" by simp
    have e: "ilog2 x = ilog2 (2 * x) - 1" using True 1(3) by (subst ilog2.simps) simp
    have "(2::real) powi (ilog2 (2 * x)) = 2 * 2 powi (ilog2 (2 * x) - 1)"
      using pw_Suc [of "ilog2 (2 * x) - 1"] by simp
    with ih pw_Suc [of "ilog2 (2 * x)"] show ?thesis unfolding e by simp
  next
    case False
    show ?thesis
    proof (cases "2 \<le> x")
      case True
      with 1 False have ih: "2 powi (ilog2 (x / 2)) \<le> x / 2 \<and> x / 2 < 2 powi (ilog2 (x / 2) + 1)" by simp
      have e: "ilog2 x = ilog2 (x / 2) + 1" using True False 1(3) by (subst ilog2.simps) simp
      from ih pw_Suc [of "ilog2 (x / 2)"] pw_Suc [of "ilog2 (x / 2) + 1"]
      show ?thesis unfolding e by linarith
    next
      case g: False
      have e: "ilog2 x = 0" using g False 1(3) by (subst ilog2.simps) simp
      from g False show ?thesis unfolding e by simp
    qed
  qed
qed


lemma ilog2_unique:
  assumes "2 powi k \<le> x" "x < 2 powi (k + 1)"
  shows "ilog2 x = k"
proof -
  from assms pw_pos [of k] have x: "0 < x" by linarith
  from assms ilog2_bounds [OF x]
  have "(2::real) powi (ilog2 x) < 2 powi (k + 1)" "(2::real) powi k < 2 powi (ilog2 x + 1)"
    by linarith+
  from pw_less_cancel [OF this(1)] pw_less_cancel [OF this(2)] show ?thesis by simp
qed






text \<open>Rounding of magnitudes keeps zero, sign and order, and leaves the values of the format
  as they are; what it returns is a value of the format.\<close>

lemma ilog2_0: "ilog2 0 = 0" by (subst ilog2.simps) simp








subsection \<open>One cell\<close>


lemma round_double_finite:
  "round_magnitude x = x \<Longrightarrow> x < 2 ^ 1024 \<Longrightarrow> round_double s x = Finite s x"
  by (simp add: round_double_def Let_def)








subsection \<open>The filled matrix\<close>




section \<open>Printing (claim C8)\<close>

lemma print_row_loop:
  assumes "valid_matrix m" "values m = Some vs" "row < height m"
  shows "for_loop 0 (width m) (\<lambda>col sink.
                 case matrix_get m row col of Inl e \<Rightarrow> Inl e
                 | Inr x \<Rightarrow> Inr (sink @ fmt x @ [CHR '' ''])) sink
       = Inr (sink @ concat (map (\<lambda>col. fmt (vs ! (unat row * unat (width m) + col)) @ [CHR '' ''])
                              [0..<unat (width m)]))"
proof -
  let ?body = "\<lambda>col sink. case matrix_get m row col of Inl e \<Rightarrow> Inl e
                 | Inr x \<Rightarrow> Inr (sink @ fmt x @ [CHR '' ''])"
  let ?out = "\<lambda>n. concat (map (\<lambda>col. fmt (vs ! (unat row * unat (width m) + col)) @ [CHR '' '']) [0..<n])"
  let ?I = "\<lambda>i s. s = sink @ ?out (unat i)"
  have "\<exists>s'. for_loop 0 (width m) ?body sink = Inr s' \<and> ?I (width m) s'"
  proof (rule for_loop_rule [where I = ?I])
    show "0 \<le> width m" by simp
    show "?I 0 sink" by simp
  next
    fix i s assume i: "i < width m" and s: "?I i s"
    show "\<exists>s'. ?body i s = Inr s' \<and> ?I (i + 1) s'"
      using s by (simp add: matrix_get_valid [OF assms i] unat_plus1 [OF i])
  qed
  then show ?thesis by simp
qed

lemma matrix_print_format:
  assumes "valid_matrix m" and "values m = Some vs"
  shows "matrix_print fmt m sink =
           Inr (sink @ concat (map (\<lambda>row.
                   concat (map (\<lambda>col. fmt (vs ! (row * unat (width m) + col)) @ [CHR '' ''])
                               [0..<unat (width m)]) @ [CHR 0x0A])
                 [0..<unat (height m)]))"
proof -
  let ?line = "\<lambda>row. concat (map (\<lambda>col. fmt (vs ! (row * unat (width m) + col)) @ [CHR '' ''])
                               [0..<unat (width m)]) @ [CHR 0x0A]"
  let ?body = "\<lambda>row sink.
          case for_loop 0 (width m) (\<lambda>col sink.
                 case matrix_get m row col of Inl e \<Rightarrow> Inl e
                 | Inr x \<Rightarrow> Inr (sink @ fmt x @ [CHR '' ''])) sink of
            Inl e \<Rightarrow> Inl e
          | Inr sink \<Rightarrow> Inr (sink @ [CHR 0x0A])"
  let ?I = "\<lambda>i s. s = sink @ concat (map ?line [0..<unat i])"
  have "\<exists>s'. for_loop 0 (height m) ?body sink = Inr s' \<and> ?I (height m) s'"
  proof (rule for_loop_rule [where I = ?I])
    show "0 \<le> height m" by simp
    show "?I 0 sink" by simp
  next
    fix i s assume i: "i < height m" and s: "?I i s"
    show "\<exists>s'. ?body i s = Inr s' \<and> ?I (i + 1) s'"
      using s by (simp add: print_row_loop [OF assms i] unat_plus1 [OF i])
  qed
  with assms(2) show ?thesis by (simp add: matrix_print_def)
qed

lemma count_list_row:
  assumes "\<forall>x. c \<notin> set (fmt x)" "c \<noteq> d"
  shows "count_list (concat (map (\<lambda>col. fmt (f col) @ [d]) cols)) c = 0"
  using assms by (induction cols) simp_all

lemma count_list_lines:
  "\<forall>x \<in> set xss. count_list x c = 1 \<Longrightarrow> count_list (concat xss) c = length xss"
  by (induction xss) simp_all

text \<open>
  Claim C8. On a valid matrix \<^verbatim>\<open>matrix_print\<close> appends to the sink, row by row, the
  rendering of each cell of the row followed by one space, and then one newline; nothing
  else is written. When the rendering of a cell contains no newline (as \<^verbatim>\<open>%f\<close> never does),
  the output holds exactly \<open>height\<close> newlines, one at the end of each row's line.
\<close>

theorem matrix_print_lines:
  assumes "valid_matrix m" and "values m = Some vs"
  shows "\<exists>out. matrix_print fmt m sink = Inr (sink @ out)
          \<and> out = concat (map (\<lambda>row.
                     concat (map (\<lambda>col. fmt (vs ! (row * unat (width m) + col)) @ [CHR '' ''])
                                 [0..<unat (width m)]) @ [CHR 0x0A])
                   [0..<unat (height m)])
          \<and> ((\<forall>x. CHR 0x0A \<notin> set (fmt x)) \<longrightarrow> count_list out (CHR 0x0A) = unat (height m))"
proof -
  let ?line = "\<lambda>row. concat (map (\<lambda>col. fmt (vs ! (row * unat (width m) + col)) @ [CHR '' ''])
                                 [0..<unat (width m)]) @ [CHR 0x0A]"
  let ?out = "concat (map ?line [0..<unat (height m)])"
  have "count_list ?out (CHR 0x0A) = unat (height m)" if "\<forall>x. CHR 0x0A \<notin> set (fmt x)"
  proof -
    have one: "count_list (?line row) (CHR 0x0A) = 1" for row
      using count_list_row [OF that, of "CHR '' ''"] by simp
    have "\<forall>x \<in> set (map ?line [0..<unat (height m)]). count_list x (CHR 0x0A) = 1"
    proof
      fix x assume "x \<in> set (map ?line [0..<unat (height m)])"
      then obtain row where "x = ?line row" by auto
      with one [of row] show "count_list x (CHR 0x0A) = 1" by simp
    qed
    then have "count_list (concat (map ?line [0..<unat (height m)])) (CHR 0x0A)
        = length (map ?line [0..<unat (height m)])" by (rule count_list_lines)
    then show ?thesis by simp
  qed
  with matrix_print_format [OF assms, of fmt sink] show ?thesis by blast
qed

theorem matrix_print_lines_witness:
  "matrix_print (\<lambda>x :: int. if x = 1 then ''1.000000'' else ''2.000000'')
       \<lparr>height = 2, width = 2, values = Some [1, 2, 2, 1]\<rparr> ''''
     = Inr (''1.000000 2.000000 '' @ [CHR 0x0A] @ ''2.000000 1.000000 '' @ [CHR 0x0A])"
proof -
  let ?m = "\<lparr>height = 2, width = 2, values = Some [1, 2, 2, 1 :: int]\<rparr>"
  have v: "valid_matrix ?m" "values ?m = Some [1, 2, 2, 1]" by (simp_all add: valid_matrix_def)
  have u: "[0..<2] = [0, Suc 0]" by (simp add: upt_rec)
  from matrix_print_lines [OF v, of "\<lambda>x :: int. if x = 1 then ''1.000000'' else ''2.000000''" "''''"]
  show ?thesis by (simp add: u)
qed

section \<open>Matrix multiplication (claim C4)\<close>






section \<open>Properties of the bit tracking\<close>

lemma unat_eq_iff: "(unat (a :: size_t) = unat b) = (a = b)"
  by (simp add: word_unat_eq_iff)

lemma has_bit_bit: "unat idx < 64 \<Longrightarrow> matrix__has_bit number idx = bit number (unat idx)"
  by (simp add: matrix__has_bit_def push_bit_of_1 and_exp_eq_0_iff_not_bit)

lemma small_mark_has:
  assumes "i < 64" "j < 64"
  shows "matrix__has_bit (matrix__set_bit n i) j = (j = i \<or> matrix__has_bit n j)"
proof -
  from assms have ij: "unat i < 64" "unat j < 64" by (simp_all add: word_less_nat_alt)
  then show ?thesis
    by (auto simp: matrix__has_bit_def matrix__set_bit_def push_bit_of_1 and_exp_eq_0_iff_not_bit
        bit_or_iff bit_exp_iff unat_eq_iff)
qed

lemma rect_mark_has:
  assumes len: "length bs = unat (sz div 64) + 1" and "i < sz" "j < sz"
  shows "matrix__bitset_has (matrix__bitset_set bs i) j = (j = i \<or> matrix__bitset_has bs j)"
    and "length (matrix__bitset_set bs i) = unat (sz div 64) + 1"
proof -
  from assms(2,3) have "unat i < unat sz" "unat j < unat sz" by (simp_all add: word_less_nat_alt)
  then have hi: "unat (i div 64) < length bs" and hj: "unat (j div 64) < length bs"
    unfolding len by (simp_all add: unat_div less_Suc_eq_le div_le_mono)
  have l: "unat (i mod 64) < 64" "unat (j mod 64) < 64" by (simp_all add: unat_mod)
  have eq: "j = i \<longleftrightarrow> unat (j div 64) = unat (i div 64) \<and> unat (j mod 64) = unat (i mod 64)"
  proof
    assume "unat (j div 64) = unat (i div 64) \<and> unat (j mod 64) = unat (i mod 64)"
    then have "unat j div 64 = unat i div 64" "unat j mod 64 = unat i mod 64"
      by (simp_all add: unat_div unat_mod)
    then have "unat j = unat i" by (metis div_mult_mod_eq)
    then show "j = i" by (simp add: unat_eq_iff)
  qed simp
  show "matrix__bitset_has (matrix__bitset_set bs i) j = (j = i \<or> matrix__bitset_has bs j)"
    using hi hj l
    by (auto simp: eq matrix__bitset_has_def matrix__bitset_set_def Let_def nth_list_update
        push_bit_of_1 and_exp_eq_0_iff_not_bit bit_or_iff bit_exp_iff)
  show "length (matrix__bitset_set bs i) = unat (sz div 64) + 1"
    using len by (simp add: matrix__bitset_set_def Let_def)
qed

lemma find_next_spec:
  "i0 \<le> find_next has bs sz i0
   \<and> (\<forall>j. i0 \<le> j \<and> j < find_next has bs sz i0 \<longrightarrow> has bs j \<and> j < sz)
   \<and> (find_next has bs sz i0 < sz \<longrightarrow> \<not> has bs (find_next has bs sz i0))"
proof (induction has bs sz i0 rule: find_next.induct)
  case (1 has bs sz i)
  show ?case
  proof (cases "i < sz \<and> has bs i")
    case True
    then have i: "i < sz" by simp
    from i have lt: "i < i + 1" by (simp add: word_less_nat_alt unat_plus1)
    have r: "find_next has bs sz i = find_next has bs sz (i + 1)"
      using True by (subst find_next.simps) simp
    from "1.IH" [OF True] have ih: "i + 1 \<le> find_next has bs sz (i + 1)"
      "\<forall>j. i + 1 \<le> j \<and> j < find_next has bs sz (i + 1) \<longrightarrow> has bs j \<and> j < sz"
      "find_next has bs sz (i + 1) < sz \<longrightarrow> \<not> has bs (find_next has bs sz (i + 1))" by blast+
    have "has bs j \<and> j < sz" if "i \<le> j" "j < find_next has bs sz (i + 1)" for j
    proof (cases "j = i")
      case True with \<open>i < sz \<and> has bs i\<close> show ?thesis by simp
    next
      case False
      with that(1) have "i < j" by simp
      then have "i + 1 \<le> j" by (rule inc_le)
      with ih(2) that(2) show ?thesis by blast
    qed
    with ih lt show ?thesis unfolding r by auto
  next
    case False
    then have "find_next has bs sz i = i" by (subst find_next.simps) auto
    with False show ?thesis by auto
  qed
qed

section \<open>The cycle walk\<close>

text \<open>
  The walk started at \<open>c0\<close> is followed through the set \<open>V\<close> of indices already left
  behind. \<open>vs0\<close> is the buffer when the walk started, \<open>D\<close> the indices resolved by earlier
  walks. Wherever the permutation is injective below \<open>sz\<close>, the walk returns, and it has
  then moved every value of the cycle of \<open>c0\<close> one step along the permutation.
\<close>

lemma cycle_walk_spec:
  fixes m :: "'a matrix" and vs0 :: "'a list" and D :: "size_t set"
  assumes inj: "inj_on (perm (height m) sz) {j. j < sz}" and sz: "0 < sz"
    and mark_has: "\<And>bs i j. binv bs \<Longrightarrow> i < sz \<Longrightarrow> j < sz \<Longrightarrow> has (mark bs i) j = (j = i \<or> has bs j)"
    and mark_inv: "\<And>bs i. binv bs \<Longrightarrow> i < sz \<Longrightarrow> binv (mark bs i)"
    and len0: "unat sz \<le> length vs0"
    and c0: "c0 < sz"
    and D: "D \<subseteq> {j. j < sz}" "perm (height m) sz ` D = D"
  shows "\<lbrakk> length vs = length vs0; binv bs; i < sz; i \<notin> V; i \<notin> D; V \<inter> D = {}; V \<subseteq> {j. j < sz};
           V = {} \<longrightarrow> i = c0; V \<noteq> {} \<longrightarrow> c0 \<in> V \<and> i \<noteq> c0;
           perm (height m) sz ` V = (V - {c0}) \<union> (if V = {} then {} else {i});
           \<forall>j\<in>V. vs ! unat (perm (height m) sz j) = vs0 ! unat j;
           \<forall>k. k < sz \<longrightarrow> k \<notin> perm (height m) sz ` V \<longrightarrow> vs ! unat k = vs0 ! unat k;
           \<forall>n \<ge> unat sz. vs ! n = vs0 ! n;
           temp = vs0 ! unat i \<rbrakk>
     \<Longrightarrow> \<exists>vs' bs' V'. cycle_walk mark sz c0 (m\<lparr>values := Some vs\<rparr>) bs i temp
                          = Some (Inr (m\<lparr>values := Some vs'\<rparr>, bs'))
           \<and> length vs' = length vs0 \<and> binv bs' \<and> V \<subseteq> V' \<and> i \<in> V' \<and> c0 \<in> V'
           \<and> V' \<subseteq> {j. j < sz} \<and> V' \<inter> D = {}
           \<and> perm (height m) sz ` V' = V'
           \<and> (\<forall>j < sz. has bs' j = (j \<in> V' - V \<or> has bs j))
           \<and> (\<forall>j\<in>V'. vs' ! unat (perm (height m) sz j) = vs0 ! unat j)
           \<and> (\<forall>k < sz. k \<notin> V' \<longrightarrow> vs' ! unat k = vs0 ! unat k)
           \<and> (\<forall>n \<ge> unat sz. vs' ! n = vs0 ! n)"
proof (induction "card ({j. j < sz} - V)" arbitrary: vs bs i temp V rule: less_induct)
  case less
  let ?p = "perm (height m) sz"
  let ?n = "?p i"
  let ?vs1 = "vs[unat ?n := temp]"
  let ?bs1 = "mark bs i"
  let ?V1 = "insert i V"
  note i = \<open>i < sz\<close>
  have n_lt: "?n < sz" using sz by (rule word_mod_less_divisor)
  then have n_len: "unat ?n < length vs"
    using len0 less.prems(1) by (simp add: word_less_nat_alt)
  have inj_iff: "?p a = ?p b \<longleftrightarrow> a = b" if "a < sz" "b < sz" for a b
    using inj that by (auto simp: inj_on_def)
  have n_notin_pV: "?n \<notin> ?p ` V"
  proof
    assume "?n \<in> ?p ` V"
    then obtain v where v: "v \<in> V" "?p v = ?n" by auto
    with less.prems(7) i have "v = i" by (auto simp: inj_iff)
    with v(1) less.prems(4) show False by simp
  qed
  have n_notin_D: "?n \<notin> D"
  proof
    assume "?n \<in> D"
    with D(2) have "?n \<in> ?p ` D" by simp
    then obtain d where d: "d \<in> D" "?p d = ?n" by auto
    with D(1) i have "d = i" by (auto simp: inj_iff)
    with d(1) less.prems(5) show False by simp
  qed
  have swap: "vs ! unat ?n = vs0 ! unat ?n"
    using less.prems(12) n_lt n_notin_pV by blast
  have V1_sub: "?V1 \<subseteq> {j. j < sz}" using less.prems(7) i by auto
  have V1_D: "?V1 \<inter> D = {}" using less.prems(5,6) by auto
  have sub_pV: "?V1 - {c0} \<subseteq> ?p ` V"
  proof (cases "V = {}")
    case True
    with less.prems(8) show ?thesis by auto
  next
    case False
    with less.prems(10) show ?thesis by auto
  qed
  have c0_V1: "c0 \<in> ?V1" using less.prems(8,9) by (cases "V = {}") auto
  have pV1: "?p ` ?V1 = (?V1 - {c0}) \<union> {?n}"
  proof (cases "V = {}")
    case True
    with less.prems(8) show ?thesis by auto
  next
    case False
    with less.prems(9,10) show ?thesis by auto
  qed
  have vals1: "\<forall>j\<in>?V1. ?vs1 ! unat (?p j) = vs0 ! unat j"
  proof
    fix j assume j: "j \<in> ?V1"
    show "?vs1 ! unat (?p j) = vs0 ! unat j"
    proof (cases "j = i")
      case True
      with n_len less.prems(14) show ?thesis by simp
    next
      case False
      with j have jV: "j \<in> V" by simp
      with less.prems(7) have "j < sz" by auto
      with False i have "?p j \<noteq> ?n" by (simp add: inj_iff)
      then have "unat (?p j) \<noteq> unat ?n" by (simp add: unat_eq_iff)
      with jV less.prems(11) show ?thesis by simp
    qed
  qed
  have unw1: "\<forall>k. k < sz \<longrightarrow> k \<notin> ?p ` ?V1 \<longrightarrow> ?vs1 ! unat k = vs0 ! unat k"
  proof (intro allI impI)
    fix k assume k: "k < sz" "k \<notin> ?p ` ?V1"
    then have "k \<noteq> ?n" "k \<notin> ?p ` V" by auto
    then have "unat k \<noteq> unat ?n" by (simp add: unat_eq_iff)
    with less.prems(12) k(1) \<open>k \<notin> ?p ` V\<close> show "?vs1 ! unat k = vs0 ! unat k" by simp
  qed
  have hi1: "\<forall>n \<ge> unat sz. ?vs1 ! n = vs0 ! n"
  proof (intro allI impI)
    fix n assume "unat sz \<le> n"
    moreover from n_lt have "unat ?n < unat sz" by (simp add: word_less_nat_alt)
    ultimately show "?vs1 ! n = vs0 ! n" using less.prems(13) by simp
  qed
  have has1: "\<forall>j < sz. has ?bs1 j = (j = i \<or> has bs j)"
    using mark_has [OF less.prems(2) i] by blast
  have binv1: "binv ?bs1" using less.prems(2) i by (rule mark_inv)
  have unfold: "cycle_walk mark sz c0 (m\<lparr>values := Some vs\<rparr>) bs i temp =
      (if ?n \<noteq> c0 then cycle_walk mark sz c0 (m\<lparr>values := Some ?vs1\<rparr>) ?bs1 ?n (vs ! unat ?n)
       else Some (Inr (m\<lparr>values := Some ?vs1\<rparr>, ?bs1)))"
    using n_len by (subst cycle_walk.simps) (simp add: buf_read_def buf_write_def Let_def)
  show ?case
  proof (cases "?n = c0")
    case True
    with pV1 c0_V1 have closed: "?p ` ?V1 = ?V1" by auto
    have "\<forall>k < sz. k \<notin> ?V1 \<longrightarrow> ?vs1 ! unat k = vs0 ! unat k"
    proof (intro allI impI)
      fix k assume k: "k < sz" "k \<notin> ?V1"
      from k(2) have "k \<notin> ?p ` ?V1" unfolding closed .
      with unw1 k(1) show "?vs1 ! unat k = vs0 ! unat k" by blast
    qed
    moreover have "\<forall>j < sz. has ?bs1 j = (j \<in> ?V1 - V \<or> has bs j)"
      using has1 less.prems(4) by auto
    moreover have "cycle_walk mark sz c0 (m\<lparr>values := Some vs\<rparr>) bs i temp
        = Some (Inr (m\<lparr>values := Some ?vs1\<rparr>, ?bs1))"
      using True unfold by simp
    moreover have "length ?vs1 = length vs0" using less.prems(1) by simp
    moreover have "V \<subseteq> ?V1" "i \<in> ?V1" by auto
    ultimately show ?thesis
      apply -
      apply (rule exI [of _ ?vs1], rule exI [of _ ?bs1], rule exI [of _ ?V1])
      apply (intro conjI)
      apply (assumption | rule binv1 c0_V1 V1_sub V1_D closed vals1 hi1)+
      done
  next
    case False
    have n_notin_V1: "?n \<notin> ?V1"
    proof
      assume "?n \<in> ?V1"
      with False have "?n \<in> ?V1 - {c0}" by simp
      with sub_pV n_notin_pV show False by blast
    qed
    have "finite ({j. j < sz} - V)" by simp
    moreover have "{j. j < sz} - ?V1 \<subset> {j. j < sz} - V"
      using i less.prems(4) by auto
    ultimately have meas: "card ({j. j < sz} - ?V1) < card ({j. j < sz} - V)"
      by (intro psubset_card_mono)
    have pV1': "?p ` ?V1 = (?V1 - {c0}) \<union> (if ?V1 = {} then {} else {?n})"
      using pV1 by simp
    have "\<exists>vs' bs' V'. cycle_walk mark sz c0 (m\<lparr>values := Some ?vs1\<rparr>) ?bs1 ?n (vs ! unat ?n)
                          = Some (Inr (m\<lparr>values := Some vs'\<rparr>, bs'))
           \<and> length vs' = length vs0 \<and> binv bs' \<and> ?V1 \<subseteq> V' \<and> ?n \<in> V' \<and> c0 \<in> V'
           \<and> V' \<subseteq> {j. j < sz} \<and> V' \<inter> D = {}
           \<and> ?p ` V' = V'
           \<and> (\<forall>j < sz. has bs' j = (j \<in> V' - ?V1 \<or> has ?bs1 j))
           \<and> (\<forall>j\<in>V'. vs' ! unat (?p j) = vs0 ! unat j)
           \<and> (\<forall>k < sz. k \<notin> V' \<longrightarrow> vs' ! unat k = vs0 ! unat k)
           \<and> (\<forall>n \<ge> unat sz. vs' ! n = vs0 ! n)"
    proof (rule less.hyps [OF meas])
      show "length ?vs1 = length vs0" using less.prems(1) by simp
      show "binv ?bs1" by (rule binv1)
      show "?n < sz" by (rule n_lt)
      show "?n \<notin> ?V1" by (rule n_notin_V1)
      show "?n \<notin> D" by (rule n_notin_D)
      show "?V1 \<inter> D = {}" by (rule V1_D)
      show "?V1 \<subseteq> {j. j < sz}" by (rule V1_sub)
      show "?V1 = {} \<longrightarrow> ?n = c0" by simp
      show "?V1 \<noteq> {} \<longrightarrow> c0 \<in> ?V1 \<and> ?n \<noteq> c0" using c0_V1 False by simp
      show "?p ` ?V1 = (?V1 - {c0}) \<union> (if ?V1 = {} then {} else {?n})" by (rule pV1')
      show "\<forall>j\<in>?V1. ?vs1 ! unat (?p j) = vs0 ! unat j" by (rule vals1)
      show "\<forall>k. k < sz \<longrightarrow> k \<notin> ?p ` ?V1 \<longrightarrow> ?vs1 ! unat k = vs0 ! unat k" by (rule unw1)
      show "\<forall>n \<ge> unat sz. ?vs1 ! n = vs0 ! n" by (rule hi1)
      show "vs ! unat ?n = vs0 ! unat ?n" by (rule swap)
    qed
    then show ?thesis
    proof (elim exE conjE)
      fix vs' bs' V'
      assume r: "cycle_walk mark sz c0 (m\<lparr>values := Some ?vs1\<rparr>) ?bs1 ?n (vs ! unat ?n)
                          = Some (Inr (m\<lparr>values := Some vs'\<rparr>, bs'))"
        "length vs' = length vs0" "binv bs'" "?V1 \<subseteq> V'" "?n \<in> V'" "c0 \<in> V'"
        "V' \<subseteq> {j. j < sz}" "V' \<inter> D = {}" "?p ` V' = V'"
        "\<forall>j < sz. has bs' j = (j \<in> V' - ?V1 \<or> has ?bs1 j)"
        "\<forall>j\<in>V'. vs' ! unat (?p j) = vs0 ! unat j"
        "\<forall>k < sz. k \<notin> V' \<longrightarrow> vs' ! unat k = vs0 ! unat k"
        "\<forall>n \<ge> unat sz. vs' ! n = vs0 ! n"
      have h: "\<forall>j < sz. has bs' j = (j \<in> V' - V \<or> has bs j)"
      proof (intro allI impI)
        fix j assume j: "j < sz"
        with r(10) have "has bs' j = (j \<in> V' - ?V1 \<or> has ?bs1 j)" by blast
        also from has1 j have "has ?bs1 j = (j = i \<or> has bs j)" by blast
        finally show "has bs' j = (j \<in> V' - V \<or> has bs j)"
          using r(4) less.prems(4) by auto
      qed
      have w: "cycle_walk mark sz c0 (m\<lparr>values := Some vs\<rparr>) bs i temp
          = Some (Inr (m\<lparr>values := Some vs'\<rparr>, bs'))"
        using False unfold r(1) by simp
      from r(4) have s: "V \<subseteq> V'" "i \<in> V'" by auto
      show ?thesis
        apply (rule exI [of _ vs'], rule exI [of _ bs'], rule exI [of _ V'])
        apply (intro conjI)
        apply (rule w r(2,3) s r(6,7,8,9) h r(11,12,13))+
        done
    qed
  qed
qed

section \<open>The outer loop\<close>

lemma cycle_loop_spec:
  fixes m :: "'a matrix" and vs0 :: "'a list"
  assumes inj: "inj_on (perm (height m) sz) {j. j < sz}" and sz: "0 < sz"
    and mark_has: "\<And>bs i j. binv bs \<Longrightarrow> i < sz \<Longrightarrow> j < sz \<Longrightarrow> has (mark bs i) j = (j = i \<or> has bs j)"
    and mark_inv: "\<And>bs i. binv bs \<Longrightarrow> i < sz \<Longrightarrow> binv (mark bs i)"
    and len0: "unat sz \<le> length vs0"
  shows "\<lbrakk> length vs = length vs0; binv bs;
           D = {j. j < sz \<and> (j = 0 \<or> has bs j)};
           perm (height m) sz ` D = D;
           \<forall>j\<in>D. vs ! unat (perm (height m) sz j) = vs0 ! unat j;
           \<forall>k < sz. k \<notin> D \<longrightarrow> vs ! unat k = vs0 ! unat k;
           \<forall>n \<ge> unat sz. vs ! n = vs0 ! n;
           1 \<le> i; \<forall>j. 1 \<le> j \<and> j < i \<longrightarrow> has bs j;
           i < sz \<longrightarrow> \<not> has bs i \<rbrakk>
     \<Longrightarrow> \<exists>vs'. cycle_loop mark has sz (m\<lparr>values := Some vs\<rparr>) bs i
                   = Some (Inr (m\<lparr>values := Some vs'\<rparr>))
           \<and> length vs' = length vs0
           \<and> (\<forall>j < sz. vs' ! unat (perm (height m) sz j) = vs0 ! unat j)
           \<and> (\<forall>n \<ge> unat sz. vs' ! n = vs0 ! n)"
proof (induction "card ({j. j < sz} - D)" arbitrary: vs bs i D rule: less_induct)
  case less
  let ?p = "perm (height m) sz"
  show ?case
  proof (cases "i < sz")
    case False
    have all: "j \<in> D" if "j < sz" for j
    proof (cases "j = 0")
      case True with that less.prems(3) show ?thesis by simp
    next
      case False
      then have "1 \<le> j" by (simp add: word_le_nat_alt unat_gt_0 Suc_le_eq)
      moreover from that \<open>\<not> i < sz\<close> have "j < i" by simp
      ultimately have "has bs j" using less.prems(9) by blast
      with that less.prems(3) show ?thesis by simp
    qed
    have "cycle_loop mark has sz (m\<lparr>values := Some vs\<rparr>) bs i = Some (Inr (m\<lparr>values := Some vs\<rparr>))"
      using False by (subst cycle_loop.simps) simp
    moreover have "\<forall>j < sz. vs ! unat (?p j) = vs0 ! unat j"
      using all less.prems(5) by blast
    ultimately show ?thesis
      using less.prems(1,7) by (intro exI [of _ vs]) simp
  next
    case True
    note i = True
    from less.prems(8) have i0: "i \<noteq> 0" by auto
    from i less.prems(10) have "\<not> has bs i" by simp
    with i0 less.prems(3) have iD: "i \<notin> D" by simp
    from less.prems(3) have Dsub: "D \<subseteq> {j. j < sz}" by auto
    from i have ilen: "unat i < length vs"
      using len0 less.prems(1) by (simp add: word_less_nat_alt)
    have len0': "unat sz \<le> length vs" using len0 less.prems(1) by simp
    have "\<exists>vs' bs' V'. cycle_walk mark sz i (m\<lparr>values := Some vs\<rparr>) bs i (vs ! unat i)
                          = Some (Inr (m\<lparr>values := Some vs'\<rparr>, bs'))
           \<and> length vs' = length vs \<and> binv bs' \<and> {} \<subseteq> V' \<and> i \<in> V' \<and> i \<in> V'
           \<and> V' \<subseteq> {j. j < sz} \<and> V' \<inter> D = {}
           \<and> ?p ` V' = V'
           \<and> (\<forall>j < sz. has bs' j = (j \<in> V' - {} \<or> has bs j))
           \<and> (\<forall>j\<in>V'. vs' ! unat (?p j) = vs ! unat j)
           \<and> (\<forall>k < sz. k \<notin> V' \<longrightarrow> vs' ! unat k = vs ! unat k)
           \<and> (\<forall>n \<ge> unat sz. vs' ! n = vs ! n)"
      by (rule cycle_walk_spec [where has = has and mark = mark and binv = binv and V = "{}",
            OF inj sz mark_has mark_inv len0' i Dsub less.prems(4)])
        (use less.prems(2) i iD in simp_all)
    then show ?thesis
    proof (elim exE conjE)
      fix vs' bs' V'
      assume r: "cycle_walk mark sz i (m\<lparr>values := Some vs\<rparr>) bs i (vs ! unat i)
                          = Some (Inr (m\<lparr>values := Some vs'\<rparr>, bs'))"
        "length vs' = length vs" "binv bs'" "{} \<subseteq> V'" "i \<in> V'" "i \<in> V'"
        "V' \<subseteq> {j. j < sz}" "V' \<inter> D = {}" "?p ` V' = V'"
        "\<forall>j < sz. has bs' j = (j \<in> V' - {} \<or> has bs j)"
        "\<forall>j\<in>V'. vs' ! unat (?p j) = vs ! unat j"
        "\<forall>k < sz. k \<notin> V' \<longrightarrow> vs' ! unat k = vs ! unat k"
        "\<forall>n \<ge> unat sz. vs' ! n = vs ! n"
      let ?D' = "{j. j < sz \<and> (j = 0 \<or> has bs' j)}"
      let ?i' = "find_next has bs' sz 1"
      have D': "?D' = D \<union> V'"
        using r(7,10) less.prems(3) by auto
      have "finite ({j. j < sz} - D)" by simp
      moreover have "{j. j < sz} - ?D' \<subset> {j. j < sz} - D"
        unfolding D' using i iD r(5) by auto
      ultimately have meas: "card ({j. j < sz} - ?D') < card ({j. j < sz} - D)"
        by (intro psubset_card_mono)
      have pD': "?p ` ?D' = ?D'"
        unfolding D' using less.prems(4) r(9) by (simp add: image_Un)
      have vals: "\<forall>j\<in>?D'. vs' ! unat (?p j) = vs0 ! unat j"
        unfolding D'
      proof
        fix j assume "j \<in> D \<union> V'"
        then show "vs' ! unat (?p j) = vs0 ! unat j"
        proof
          assume j: "j \<in> D"
          with less.prems(4) have pj: "?p j \<in> D" by blast
          with r(8) have "?p j \<notin> V'" by blast
          moreover from pj Dsub have "?p j < sz" by blast
          ultimately have "vs' ! unat (?p j) = vs ! unat (?p j)" using r(12) by blast
          with less.prems(5) j show ?thesis by simp
        next
          assume j: "j \<in> V'"
          with r(11) have "vs' ! unat (?p j) = vs ! unat j" by blast
          moreover from j r(7,8) have "j < sz" "j \<notin> D" by auto
          ultimately show ?thesis using less.prems(6) by simp
        qed
      qed
      have unw: "\<forall>k < sz. k \<notin> ?D' \<longrightarrow> vs' ! unat k = vs0 ! unat k"
        unfolding D' using r(12) less.prems(6) by simp
      have hi: "\<forall>n \<ge> unat sz. vs' ! n = vs0 ! n"
        using r(13) less.prems(7) by simp
      note fn = find_next_spec [of 1 has bs' sz]
      have "\<exists>vs''. cycle_loop mark has sz (m\<lparr>values := Some vs'\<rparr>) bs' ?i'
                   = Some (Inr (m\<lparr>values := Some vs''\<rparr>))
           \<and> length vs'' = length vs0
           \<and> (\<forall>j < sz. vs'' ! unat (?p j) = vs0 ! unat j)
           \<and> (\<forall>n \<ge> unat sz. vs'' ! n = vs0 ! n)"
      proof (rule less.hyps [OF meas _ _ refl pD' vals unw hi])
        show "length vs' = length vs0" using r(2) less.prems(1) by simp
        show "binv bs'" by (rule r(3))
        show "1 \<le> ?i'" using fn by blast
        show "\<forall>j. 1 \<le> j \<and> j < ?i' \<longrightarrow> has bs' j" using fn by blast
        show "?i' < sz \<longrightarrow> \<not> has bs' ?i'" using fn by blast
      qed
      moreover have "cycle_loop mark has sz (m\<lparr>values := Some vs\<rparr>) bs i
          = cycle_loop mark has sz (m\<lparr>values := Some vs'\<rparr>) bs' ?i'"
        using i ilen r(1) by (subst cycle_loop.simps) (simp add: buf_read_def)
      ultimately show ?thesis by simp
    qed
  qed
qed

section \<open>The permutation\<close>

lemma perm_nat_inverse:
  fixes H W i :: nat
  assumes "i < H * W - 1"
  shows "((i * H) mod (H * W - 1) * W) mod (H * W - 1) = i"
proof -
  define S where "S = H * W - 1"
  from assms have HW: "H * W = S + 1" and i: "i < S" by (simp_all add: S_def)
  have "((i * H) mod S * W) mod S = (i * (H * W)) mod S"
    by (simp add: mod_mult_left_eq mult.assoc)
  also have "i * (H * W) = i * S + i" unfolding HW by simp
  also have "(i * S + i) mod S = i" using i by simp
  finally show ?thesis unfolding S_def .
qed

lemma perm_nat_cell:
  fixes H W r c :: nat
  assumes r: "r < H" and c: "c < W" and i: "r * W + c < H * W - 1"
  shows "((r * W + c) * H) mod (H * W - 1) = c * H + r"
proof -
  define S where "S = H * W - 1"
  from i have HW: "H * W = S + 1" and i': "r * W + c < S" by (simp_all add: S_def)
  have lt: "c * H + r < W * H" using c r by (rule flat_index_less)
  have ne: "c * H + r \<noteq> S"
  proof
    assume e: "c * H + r = S"
    from r obtain H' where H': "H = Suc H'" by (cases H) simp_all
    from c obtain W' where W': "W = Suc W'" by (cases W) simp_all
    from HW have "S = W' * H + H'" unfolding H' W' by (simp add: algebra_simps)
    with e have e': "c * H + r = W' * H + H'" by simp
    from r have "(c * H + r) div H = c" "(c * H + r) mod H = r" by simp_all
    moreover from H' have "H' < H" by simp
    then have "(W' * H + H') div H = W'" "(W' * H + H') mod H = H'"
      by simp_all
    ultimately have "c = W'" "r = H'" using e' by simp_all
    then have "r * W + c = H' * W + W'" by simp
    also have "\<dots> = S" using HW unfolding H' W' by (simp add: algebra_simps)
    finally show False using i' by simp
  qed
  from lt ne HW have small: "c * H + r < S" by (simp add: mult.commute)
  have "(r * W + c) * H = r * (H * W) + c * H" by (simp add: algebra_simps)
  also have "\<dots> = r * S + (c * H + r)" unfolding HW by simp
  finally have "((r * W + c) * H) mod S = (r * S + (c * H + r)) mod S" by simp
  also have "\<dots> = c * H + r" using small by simp
  finally show ?thesis unfolding S_def .
qed

lemma perm_unat:
  fixes i h sz :: size_t
  assumes "unat i * unat h < 2 ^ 64"
  shows "unat (perm h sz i) = (unat i * unat h) mod unat sz"
proof -
  from assms have "unat i * unat h < 2 ^ LENGTH(64)" by simp
  then have "unat (i * h) = unat i * unat h" by (simp only: unat_mult_lem)
  then show ?thesis by (simp add: unat_mod)
qed

lemma no_overflow_index:
  fixes i sz h :: size_t
  assumes "i < sz" and sz: "unat sz = N - 1" and noov: "(N - 2) * unat h < 2 ^ 64"
  shows "unat i * unat h < 2 ^ 64"
proof -
  from assms(1) have "unat i < unat sz" by (simp add: word_less_nat_alt)
  with sz have "unat i \<le> N - 2" by simp
  then have "unat i * unat h \<le> (N - 2) * unat h" by (rule mult_le_mono1)
  then show ?thesis using noov by (rule le_less_trans)
qed

lemma perm_inj:
  fixes h w sz :: size_t
  assumes sz: "unat sz = unat h * unat w - 1"
    and noov: "(unat h * unat w - 2) * unat h < 2 ^ 64"
  shows "inj_on (perm h sz) {j. j < sz}"
proof (rule inj_onI)
  fix i j assume "i \<in> {j. j < sz}" "j \<in> {j. j < sz}" and e: "perm h sz i = perm h sz j"
  then have ij: "i < sz" "j < sz" by simp_all
  let ?S = "unat h * unat w - 1"
  from ij have lt: "unat i < ?S" "unat j < ?S" by (simp_all add: word_less_nat_alt sz)
  have "unat (perm h sz i) = (unat i * unat h) mod ?S" "unat (perm h sz j) = (unat j * unat h) mod ?S"
    using perm_unat [OF no_overflow_index [OF ij(1) sz noov]]
      perm_unat [OF no_overflow_index [OF ij(2) sz noov]] by (simp_all add: sz)
  with e have "(unat i * unat h) mod ?S = (unat j * unat h) mod ?S" by simp
  then have "((unat i * unat h) mod ?S * unat w) mod ?S = ((unat j * unat h) mod ?S * unat w) mod ?S"
    by simp
  then have "unat i = unat j"
    using perm_nat_inverse [OF lt(1)] perm_nat_inverse [OF lt(2)] by simp
  then show "i = j" by (simp add: unat_eq_iff)
qed

lemma last_index:
  fixes H W r c :: nat
  assumes "r < H" "c < W" "r * W + c = H * W - 1"
  shows "r = H - 1 \<and> c = W - 1"
proof -
  from assms(1) obtain H' where H': "H = Suc H'" by (cases H) simp_all
  from assms(2) obtain W' where W': "W = Suc W'" by (cases W) simp_all
  have "H * W - 1 = H' * W + W'" unfolding H' W' by (simp add: algebra_simps)
  with assms(3) have e: "r * W + c = H' * W + W'" by simp
  from assms(2) have "(r * W + c) div W = r" "(r * W + c) mod W = c" by simp_all
  moreover from W' have "W' < W" by simp
  then have "(H' * W + W') div W = H'" "(H' * W + W') mod W = W'" by simp_all
  ultimately have "r = H'" "c = W'" using e by simp_all
  then show ?thesis by (simp add: H' W')
qed

lemma rect_sizes:
  fixes m :: "'a matrix"
  assumes v: "valid_matrix m" and H: "2 \<le> unat (height m)" and W: "2 \<le> unat (width m)"
  shows "unat (matrix_len m - 1) = unat (height m) * unat (width m) - 1"
    and "4 \<le> unat (height m) * unat (width m)"
    and "0 < matrix_len m - 1"
proof -
  from H W have "2 * 2 \<le> unat (height m) * unat (width m)" by (rule mult_le_mono)
  then show four: "4 \<le> unat (height m) * unat (width m)" by simp
  with unat_matrix_len [OF v] have "matrix_len m \<noteq> 0" by (auto simp: unat_eq_zero)
  then show sz: "unat (matrix_len m - 1) = unat (height m) * unat (width m) - 1"
    using unat_matrix_len [OF v] by (simp add: unat_minus_one)
  from sz four have "0 < unat (matrix_len m - 1)" by simp
  then show "0 < matrix_len m - 1" by (simp only: unat_gt_0 word_neq_0_conv)
qed

lemma cycle_loop_permutes:
  fixes m :: "'a matrix"
  assumes v: "valid_matrix m" and vs: "values m = Some vs"
    and H: "2 \<le> unat (height m)" and W: "2 \<le> unat (width m)"
    and noov: "(unat (height m) * unat (width m) - 2) * unat (height m) < 2 ^ 64"
    and mark_has: "\<And>bs i j. binv bs \<Longrightarrow> i < matrix_len m - 1 \<Longrightarrow> j < matrix_len m - 1
        \<Longrightarrow> has (mark bs i) j = (j = i \<or> has bs j)"
    and mark_inv: "\<And>bs i. binv bs \<Longrightarrow> i < matrix_len m - 1 \<Longrightarrow> binv (mark bs i)"
    and binv: "binv bs0"
    and init: "\<forall>j < matrix_len m - 1. j \<noteq> 0 \<longrightarrow> \<not> has bs0 j"
  shows "\<exists>vs'. cycle_loop mark has (matrix_len m - 1) m bs0 1 = Some (Inr (m\<lparr>values := Some vs'\<rparr>))
          \<and> length vs' = length vs
          \<and> (\<forall>i < unat (height m) * unat (width m) - 1.
                vs' ! ((i * unat (height m)) mod (unat (height m) * unat (width m) - 1)) = vs ! i)
          \<and> vs' ! (unat (height m) * unat (width m) - 1) = vs ! (unat (height m) * unat (width m) - 1)"
proof -
  let ?sz = "matrix_len m - 1"
  let ?N = "unat (height m) * unat (width m)"
  let ?p = "perm (height m) ?sz"
  note sizes = rect_sizes [OF v H W]
  from v vs have len: "length vs = ?N" and N: "?N < 2 ^ 64" by (simp_all add: valid_matrix_def)
  have inj: "inj_on ?p {j. j < ?sz}" using sizes(1) noov by (rule perm_inj)
  have len0: "unat ?sz \<le> length vs" using sizes(1) len by simp
  have m_eq: "m\<lparr>values := Some vs\<rparr> = m" using vs by simp
  have D0: "{j. j < ?sz \<and> (j = 0 \<or> has bs0 j)} = {0}" using init sizes(3) by auto
  have "\<exists>vs'. cycle_loop mark has ?sz (m\<lparr>values := Some vs\<rparr>) bs0 1
                   = Some (Inr (m\<lparr>values := Some vs'\<rparr>))
           \<and> length vs' = length vs
           \<and> (\<forall>j < ?sz. vs' ! unat (?p j) = vs ! unat j)
           \<and> (\<forall>n \<ge> unat ?sz. vs' ! n = vs ! n)"
  proof (rule cycle_loop_spec [where has = has and mark = mark and binv = binv and D = "{0}",
        OF inj sizes(3) mark_has mark_inv len0 refl binv])
    show "{0} = {j. j < ?sz \<and> (j = 0 \<or> has bs0 j)}" using D0 by simp
    show "?p ` {0} = {0}" by simp
    show "\<forall>j\<in>{0}. vs ! unat (?p j) = vs ! unat j" by simp
    show "\<forall>k < ?sz. k \<notin> {0} \<longrightarrow> vs ! unat k = vs ! unat k" by simp
    show "\<forall>n \<ge> unat ?sz. vs ! n = vs ! n" by simp
    show "(1 :: size_t) \<le> 1" by simp
    show "\<forall>j :: size_t. 1 \<le> j \<and> j < 1 \<longrightarrow> has bs0 j" by auto
    show "1 < ?sz \<longrightarrow> \<not> has bs0 1" using init by auto
  qed
  then obtain vs' where r: "cycle_loop mark has ?sz m bs0 1 = Some (Inr (m\<lparr>values := Some vs'\<rparr>))"
    and l: "length vs' = length vs"
    and p: "\<forall>j < ?sz. vs' ! unat (?p j) = vs ! unat j"
    and hi: "\<forall>n \<ge> unat ?sz. vs' ! n = vs ! n"
    unfolding m_eq by blast
  have "vs' ! ((i * unat (height m)) mod (?N - 1)) = vs ! i" if i: "i < ?N - 1" for i
  proof -
    let ?j = "of_nat i :: size_t"
    from i N have i64: "i < 2 ^ LENGTH(64)" by simp
    then have uj: "unat ?j = i" by (simp add: unat_of_nat)
    with i sizes(1) have j: "?j < ?sz" by (simp add: word_less_nat_alt)
    from perm_unat [OF no_overflow_index [OF j sizes(1) noov]]
    have "unat (?p ?j) = (i * unat (height m)) mod (?N - 1)" by (simp add: uj sizes(1))
    with p j uj show ?thesis by metis
  qed
  moreover from hi sizes(1) have "vs' ! (?N - 1) = vs ! (?N - 1)" by simp
  ultimately show ?thesis using r l by blast
qed

lemma permuted_cells:
  fixes H W :: nat
  assumes p: "\<forall>i < H * W - 1. vs' ! ((i * H) mod (H * W - 1)) = vs ! i"
    and last: "vs' ! (H * W - 1) = vs ! (H * W - 1)"
    and r: "r < H" and c: "c < W"
  shows "vs' ! (c * H + r) = vs ! (r * W + c)"
proof (cases "r * W + c = H * W - 1")
  case True
  from last_index [OF r c True] have rc: "r = H - 1" "c = W - 1" by simp_all
  from r c obtain H' W' where "H = Suc H'" "W = Suc W'" by (cases H; cases W) simp_all
  with rc have "c * H + r = H * W - 1" by (simp add: algebra_simps)
  with True last show ?thesis by simp
next
  case False
  from r c have "r * W + c < H * W" by (rule flat_index_less)
  with False have lt: "r * W + c < H * W - 1" by simp
  from perm_nat_cell [OF r c lt] p lt show ?thesis by metis
qed

section \<open>The two rectangular paths\<close>

lemma swap_dims:
  "(m\<lparr>values := Some vs'\<rparr>)\<lparr>height := width (m\<lparr>values := Some vs'\<rparr>),
        width := height (m\<lparr>values := Some vs'\<rparr>)\<rparr>
     = \<lparr>height = width m, width = height m, values = Some vs'\<rparr>"
  by (cases m) simp

lemma small_rectangle_result:
  fixes m :: "'a matrix"
  assumes v: "valid_matrix m" and vs: "values m = Some vs"
    and H: "2 \<le> unat (height m)" and W: "2 \<le> unat (width m)"
    and noov: "(unat (height m) * unat (width m) - 2) * unat (height m) < 2 ^ 64"
    and small: "matrix_len m \<le> 64"
  shows "\<exists>vs'. matrix__transpose_small_rectangle m
                  = Some (Inr \<lparr>height = width m, width = height m, values = Some vs'\<rparr>)
          \<and> length vs' = length vs
          \<and> (\<forall>i < unat (height m) * unat (width m) - 1.
                vs' ! ((i * unat (height m)) mod (unat (height m) * unat (width m) - 1)) = vs ! i)
          \<and> vs' ! (unat (height m) * unat (width m) - 1) = vs ! (unat (height m) * unat (width m) - 1)"
proof -
  let ?sz = "matrix_len m - 1"
  let ?bs0 = "matrix__set_bit (matrix__set_bit 0 0) ?sz"
  note sizes = rect_sizes [OF v H W]
  from small have "unat (matrix_len m) \<le> 64" by (simp add: word_le_nat_alt)
  with sizes(1,2) unat_matrix_len [OF v] have "unat ?sz < 64" by simp
  then have sz64: "?sz < 64" by (simp add: word_less_nat_alt)
  have lt64: "j < 64" if "j < ?sz" for j using that sz64 by simp
  have mark_has: "matrix__has_bit (matrix__set_bit bs i) j = (j = i \<or> matrix__has_bit bs j)"
    if "True" "i < ?sz" "j < ?sz" for bs i j
    using that lt64 by (intro small_mark_has) simp_all
  have init: "\<forall>j < ?sz. j \<noteq> 0 \<longrightarrow> \<not> matrix__has_bit ?bs0 j"
  proof (intro allI impI)
    fix j assume j: "j < ?sz" "j \<noteq> 0"
    have z: "(0 :: size_t) < 64" by simp
    have "matrix__has_bit ?bs0 j = (j = ?sz \<or> j = 0 \<or> matrix__has_bit 0 j)"
      using small_mark_has [OF sz64 lt64 [OF j(1)]] small_mark_has [OF z lt64 [OF j(1)]] by simp
    with j show "\<not> matrix__has_bit ?bs0 j" by (simp add: matrix__has_bit_def)
  qed
  have "\<exists>vs'. cycle_loop matrix__set_bit matrix__has_bit ?sz m ?bs0 1
                  = Some (Inr (m\<lparr>values := Some vs'\<rparr>))
          \<and> length vs' = length vs
          \<and> (\<forall>i < unat (height m) * unat (width m) - 1.
                vs' ! ((i * unat (height m)) mod (unat (height m) * unat (width m) - 1)) = vs ! i)
          \<and> vs' ! (unat (height m) * unat (width m) - 1) = vs ! (unat (height m) * unat (width m) - 1)"
    by (rule cycle_loop_permutes [where binv = "\<lambda>_. True", OF v vs H W noov mark_has _ _ init]) simp_all
  then obtain vs' where r: "cycle_loop matrix__set_bit matrix__has_bit ?sz m ?bs0 1
                  = Some (Inr (m\<lparr>values := Some vs'\<rparr>))"
    and rest: "length vs' = length vs"
      "\<forall>i < unat (height m) * unat (width m) - 1.
                vs' ! ((i * unat (height m)) mod (unat (height m) * unat (width m) - 1)) = vs ! i"
      "vs' ! (unat (height m) * unat (width m) - 1) = vs ! (unat (height m) * unat (width m) - 1)"
    by blast
  have "matrix__transpose_small_rectangle m
      = Some (Inr \<lparr>height = width m, width = height m, values = Some vs'\<rparr>)"
    using sz64 r by (simp add: matrix__transpose_small_rectangle_def Let_def swap_dims)
  with rest show ?thesis by blast
qed

lemma rectangle_result:
  fixes m :: "'a matrix"
  assumes v: "valid_matrix m" and vs: "values m = Some vs"
    and H: "2 \<le> unat (height m)" and W: "2 \<le> unat (width m)"
    and noov: "(unat (height m) * unat (width m) - 2) * unat (height m) < 2 ^ 64"
  shows "\<exists>vs'. matrix__transpose_rectangle m
                  = Some (Inr \<lparr>height = width m, width = height m, values = Some vs'\<rparr>)
          \<and> length vs' = length vs
          \<and> (\<forall>i < unat (height m) * unat (width m) - 1.
                vs' ! ((i * unat (height m)) mod (unat (height m) * unat (width m) - 1)) = vs ! i)
          \<and> vs' ! (unat (height m) * unat (width m) - 1) = vs ! (unat (height m) * unat (width m) - 1)"
proof -
  let ?sz = "matrix_len m - 1"
  let ?n = "unat (?sz div 64) + 1"
  let ?bs0 = "replicate (unat (?sz div 64 + 1)) (0 :: uint64_t)"
  let ?binv = "\<lambda>bs :: uint64_t list. length bs = ?n"
  have "unat ?sz < 2 ^ LENGTH(64)" by (rule unsigned_less)
  then have "unat (?sz div 64) < unat (2 ^ 58 :: size_t)"
    by (simp add: unat_div)
  then have "?sz div 64 < 2 ^ 58" by (simp only: word_less_nat_alt)
  then have n: "unat (?sz div 64 + 1) = ?n" by (simp add: unat_plus1)
  have mark_has: "matrix__bitset_has (matrix__bitset_set bs i) j = (j = i \<or> matrix__bitset_has bs j)"
    if "?binv bs" "i < ?sz" "j < ?sz" for bs i j
    using that by (rule rect_mark_has(1))
  have mark_inv: "?binv (matrix__bitset_set bs i)" if "?binv bs" "i < ?sz" for bs i
    by (rule rect_mark_has(2) [OF that(1) that(2) that(2)])
  have binv0: "?binv ?bs0" by (simp add: n)
  have init: "\<forall>j < ?sz. j \<noteq> 0 \<longrightarrow> \<not> matrix__bitset_has ?bs0 j"
  proof (intro allI impI)
    fix j assume "j < ?sz"
    then have "unat j < unat ?sz" by (simp add: word_less_nat_alt)
    then have "unat (j div 64) < ?n" by (simp add: unat_div less_Suc_eq_le div_le_mono)
    then have "unat (j div 64) < unat (?sz div 64 + 1)" by (simp only: n)
    then have z: "?bs0 ! unat (j div 64) = 0" by (rule nth_replicate)
    show "\<not> matrix__bitset_has ?bs0 j"
      by (simp only: matrix__bitset_has_def Let_def z) simp
  qed
  have "\<exists>vs'. cycle_loop matrix__bitset_set matrix__bitset_has ?sz m ?bs0 1
                  = Some (Inr (m\<lparr>values := Some vs'\<rparr>))
          \<and> length vs' = length vs
          \<and> (\<forall>i < unat (height m) * unat (width m) - 1.
                vs' ! ((i * unat (height m)) mod (unat (height m) * unat (width m) - 1)) = vs ! i)
          \<and> vs' ! (unat (height m) * unat (width m) - 1) = vs ! (unat (height m) * unat (width m) - 1)"
    by (rule cycle_loop_permutes [where binv = ?binv, OF v vs H W noov mark_has mark_inv binv0 init])
  then obtain vs' where r: "cycle_loop matrix__bitset_set matrix__bitset_has ?sz m ?bs0 1
                  = Some (Inr (m\<lparr>values := Some vs'\<rparr>))"
    and rest: "length vs' = length vs"
      "\<forall>i < unat (height m) * unat (width m) - 1.
                vs' ! ((i * unat (height m)) mod (unat (height m) * unat (width m) - 1)) = vs ! i"
      "vs' ! (unat (height m) * unat (width m) - 1) = vs ! (unat (height m) * unat (width m) - 1)"
    by blast
  have "matrix__transpose_rectangle m
      = Some (Inr \<lparr>height = width m, width = height m, values = Some vs'\<rparr>)"
    using r by (simp add: matrix__transpose_rectangle_def Let_def swap_dims)
  with rest show ?thesis by blast
qed

lemma transpose_rect_result:
  fixes m :: "'a matrix"
  assumes v: "valid_matrix m" and vs: "values m = Some vs"
    and H: "2 \<le> unat (height m)" and W: "2 \<le> unat (width m)"
    and ne: "height m \<noteq> width m"
    and noov: "(unat (height m) * unat (width m) - 2) * unat (height m) < 2 ^ 64"
  shows "\<exists>vs'. matrix_transpose m
                  = Some (Inr \<lparr>height = width m, width = height m, values = Some vs'\<rparr>)
          \<and> length vs' = length vs
          \<and> (\<forall>i < unat (height m) * unat (width m) - 1.
                vs' ! ((i * unat (height m)) mod (unat (height m) * unat (width m) - 1)) = vs ! i)
          \<and> vs' ! (unat (height m) * unat (width m) - 1) = vs ! (unat (height m) * unat (width m) - 1)"
proof -
  from H W have "height m \<noteq> 1" "width m \<noteq> 1" by auto
  with vs ne have d: "matrix_transpose m =
      (if matrix_len m \<le> 64 then matrix__transpose_small_rectangle m
       else matrix__transpose_rectangle m)"
    by (auto simp: matrix_transpose_def)
  show ?thesis
  proof (cases "matrix_len m \<le> 64")
    case True
    with small_rectangle_result [OF v vs H W noov True] d show ?thesis by simp
  next
    case False
    with rectangle_result [OF v vs H W noov] d show ?thesis by simp
  qed
qed

section \<open>Index products beyond \<open>size_t\<close>\<close>

text \<open>
  Once the walk reaches index \<open>0\<close> with a cycle start other than \<open>0\<close>, it stays there:
  \<open>(0 * height) mod size = 0\<close>. With \<open>height = 2 ^ 32\<close> the walk from \<open>1\<close> goes to \<open>2 ^ 32\<close>,
  whose product with the height wraps around to \<open>0\<close>.
\<close>

lemma cycle_walk_stuck:
  assumes "cycle_walk mark sz c0 m bs i temp = Some r"
  shows "\<not> (i = 0 \<and> c0 \<noteq> 0 \<and> (\<exists>vs. values m = Some vs \<and> vs \<noteq> []))"
proof (rule cycle_walk.raw_induct [where P = "\<lambda>mark sz c0 m bs i temp r.
          \<not> (i = 0 \<and> c0 \<noteq> 0 \<and> (\<exists>vs. values m = Some vs \<and> vs \<noteq> []))", OF _ assms])
  fix f :: "('b \<Rightarrow> uint64_t \<Rightarrow> 'b) \<Rightarrow> size_t \<Rightarrow> size_t \<Rightarrow> 'a matrix \<Rightarrow> 'b \<Rightarrow> size_t \<Rightarrow> 'a
     \<Rightarrow> (error + ('a matrix \<times> 'b)) option"
    and mark sz c0 m bs i temp r
  assume IH: "\<And>mark sz c0 m bs i temp y. f mark sz c0 m bs i temp = Some y \<Longrightarrow>
          \<not> (i = 0 \<and> c0 \<noteq> 0 \<and> (\<exists>vs. values m = Some vs \<and> vs \<noteq> []))"
    and body: "(let next = perm (height m) sz i
      in case buf_read m next of Inl e \<Rightarrow> Some (Inl e)
         | Inr swap_temp \<Rightarrow>
             case buf_write m next temp of Inl e \<Rightarrow> Some (Inl e)
             | Inr m' \<Rightarrow>
                 let bs' = mark bs i
                 in if next \<noteq> c0
                    then f mark sz c0 m' bs' next swap_temp
                    else Some (Inr (m', bs'))) = Some r"
  show "\<not> (i = 0 \<and> c0 \<noteq> 0 \<and> (\<exists>vs. values m = Some vs \<and> vs \<noteq> []))"
  proof
    assume "i = 0 \<and> c0 \<noteq> 0 \<and> (\<exists>vs. values m = Some vs \<and> vs \<noteq> [])"
    then obtain vs where p: "i = 0" "c0 \<noteq> 0" "values m = Some vs" "vs \<noteq> []" by blast
    then have rd: "buf_read m 0 = Inr (vs ! 0)"
      and wr: "buf_write m 0 temp = Inr (m\<lparr>values := Some (vs[0 := temp])\<rparr>)"
      by (simp_all add: buf_read_def buf_write_def)
    from body p(1,2) rd wr
    have "f mark sz c0 (m\<lparr>values := Some (vs[0 := temp])\<rparr>) (mark bs 0) 0 (vs ! 0) = Some r"
      by (simp add: Let_def)
    from IH [OF this] p(2,4) show False by simp
  qed
qed

lemma walk_overflow_hangs:
  fixes m :: "'a matrix"
  assumes h: "height m = 4294967296" and sz: "4294967296 < sz"
    and vs: "values m = Some vs" and len: "unat sz \<le> length vs"
  shows "cycle_walk mark sz 1 m bs 1 t = None"
proof (cases "cycle_walk mark sz 1 m bs 1 t")
  case None
  then show ?thesis .
next
  case (Some r)
  let ?a = "4294967296 :: size_t"
  from sz have sz0: "0 < sz" by (simp add: word_less_nat_alt)
  have n1: "height m mod sz = ?a" using sz h by (simp add: mod_word_less)
  have z: "?a * ?a = 0" by simp
  have n2: "perm (height m) sz ?a = 0" unfolding h by (simp only: z) simp
  from sz len have l1: "unat ?a < length vs" by (simp add: word_less_nat_alt)
  let ?m1 = "m\<lparr>values := Some (vs[unat ?a := t])\<rparr>"
  have s1: "cycle_walk mark sz 1 m bs 1 t = cycle_walk mark sz 1 ?m1 (mark bs 1) ?a (vs ! unat ?a)"
    using l1 vs by (subst cycle_walk.simps) (simp add: n1 buf_read_def buf_write_def Let_def)
  from l1 have l0: "0 < length vs" by auto
  let ?vs1 = "vs[unat ?a := t]"
  let ?m2 = "m\<lparr>values := Some (?vs1[0 := vs ! unat ?a])\<rparr>"
  have s2: "cycle_walk mark sz 1 ?m1 (mark bs 1) ?a (vs ! unat ?a)
      = cycle_walk mark sz 1 ?m2 (mark (mark bs 1) ?a) 0 (?vs1 ! 0)"
    using l0 by (subst cycle_walk.simps) (simp add: n2 buf_read_def buf_write_def Let_def)
  from Some s1 s2 have "cycle_walk mark sz 1 ?m2 (mark (mark bs 1) ?a) 0 (?vs1 ! 0) = Some r" by simp
  from cycle_walk_stuck [OF this] l0 show ?thesis by simp
qed

lemma rectangle_overflow_hangs:
  fixes vs :: "'a list"
  assumes w: "2 \<le> w" "w < 4294967296" and len: "length vs = 4294967296 * unat w"
  shows "matrix_transpose \<lparr>height = 4294967296, width = w, values = Some vs\<rparr> = None"
proof -
  let ?m = "\<lparr>height = 4294967296, width = w, values = Some vs\<rparr>"
  let ?sz = "matrix_len ?m - 1"
  from w have uw: "2 \<le> unat w" "unat w < 4294967296" by (simp_all add: word_le_nat_alt word_less_nat_alt)
  then have "unat (4294967296 :: size_t) * unat w < 2 ^ LENGTH(64)" by simp
  then have ul: "unat (matrix_len ?m) = 4294967296 * unat w"
    by (simp add: matrix_len_def unat_mult_lem [THEN iffD1])
  with uw have big: "8589934592 \<le> unat (matrix_len ?m)" by simp
  then have "matrix_len ?m \<noteq> 0" by (auto simp: unat_eq_zero)
  then have usz: "unat ?sz = 4294967296 * unat w - 1" using ul by (simp add: unat_minus_one)
  with uw have sz: "4294967296 < ?sz" by (simp add: word_less_nat_alt)
  have nle: "\<not> matrix_len ?m \<le> 64" using big by (simp add: word_le_nat_alt)
  from uw have ne: "w \<noteq> 1" "w \<noteq> 4294967296" by auto
  have d: "matrix_transpose ?m = matrix__transpose_rectangle ?m"
    using ne nle by (simp add: matrix_transpose_def)
  have l: "unat ?sz \<le> length vs" using usz len by simp
  have "cycle_walk mark ?sz 1 ?m bs 1 t = None" for mark :: "uint64_t list \<Rightarrow> uint64_t \<Rightarrow> uint64_t list" and bs t
    by (rule walk_overflow_hangs [OF _ sz _ l]) simp_all
  moreover have "1 < ?sz" using sz by (simp add: word_less_nat_alt)
  moreover have "buf_read ?m 1 = Inr (vs ! 1)" using len uw by (simp add: buf_read_def)
  ultimately have "cycle_loop mark has ?sz ?m bs 1 = None"
    for mark :: "uint64_t list \<Rightarrow> uint64_t \<Rightarrow> uint64_t list" and has bs
    by (subst cycle_loop.simps) simp
  then show ?thesis unfolding d by (simp add: matrix__transpose_rectangle_def Let_def)
qed

section \<open>Rectangular transposition (claim C1)\<close>

text \<open>
  Claim C1, amended. For every valid matrix with \<open>H \<ge> 2\<close>, \<open>W \<ge> 2\<close>, \<open>H \<noteq> W\<close> whose index
  products stay within \<^verbatim>\<open>size_t\<close>, that is \<open>(H * W - 2) * H < 2 ^ 64\<close>, \<^verbatim>\<open>matrix_transpose\<close>
  runs the small-rectangle path (at most 64 cells) or the rectangle path (more), returns,
  and yields the \<open>W \<times> H\<close> matrix in a buffer of the same length with
  \<open>result[c][r] = original[r][c]\<close>; with \<open>N = H * W\<close> and \<open>size = N - 1\<close> the buffer satisfies
  \<open>buffer'[(i * H) mod size] = buffer[i]\<close> for \<open>0 < i < size\<close>, and the flat indices \<open>0\<close> and
  \<open>size\<close> keep their values.
\<close>

theorem transpose_rectangular:
  fixes m :: "'a matrix"
  assumes "valid_matrix m" and "values m = Some vs"
    and "2 \<le> unat (height m)" and "2 \<le> unat (width m)" and "height m \<noteq> width m"
    and "(unat (height m) * unat (width m) - 2) * unat (height m) < 2 ^ 64"
  shows "\<exists>vs'. matrix_transpose m
                  = Some (Inr \<lparr>height = width m, width = height m, values = Some vs'\<rparr>)
          \<and> matrix_transpose m = (if matrix_len m \<le> 64 then matrix__transpose_small_rectangle m
                                    else matrix__transpose_rectangle m)
          \<and> length vs' = length vs
          \<and> (\<forall>r < unat (height m). \<forall>c < unat (width m).
                vs' ! (c * unat (height m) + r) = vs ! (r * unat (width m) + c))
          \<and> (\<forall>i. 0 < i \<and> i < unat (height m) * unat (width m) - 1 \<longrightarrow>
                vs' ! ((i * unat (height m)) mod (unat (height m) * unat (width m) - 1)) = vs ! i)
          \<and> vs' ! 0 = vs ! 0
          \<and> vs' ! (unat (height m) * unat (width m) - 1) = vs ! (unat (height m) * unat (width m) - 1)"
proof -
  let ?H = "unat (height m)" and ?W = "unat (width m)"
  from transpose_rect_result [OF assms] obtain vs' where
    r: "matrix_transpose m = Some (Inr \<lparr>height = width m, width = height m, values = Some vs'\<rparr>)"
    and l: "length vs' = length vs"
    and p: "\<forall>i < ?H * ?W - 1. vs' ! ((i * ?H) mod (?H * ?W - 1)) = vs ! i"
    and last: "vs' ! (?H * ?W - 1) = vs ! (?H * ?W - 1)" by blast
  from assms(3,4) have "height m \<noteq> 1" "width m \<noteq> 1" by auto
  with assms(2,5) have d: "matrix_transpose m =
      (if matrix_len m \<le> 64 then matrix__transpose_small_rectangle m
       else matrix__transpose_rectangle m)"
    by (auto simp: matrix_transpose_def)
  have cells: "\<forall>r < ?H. \<forall>c < ?W. vs' ! (c * ?H + r) = vs ! (r * ?W + c)"
    using permuted_cells [OF p last] by blast
  from assms(3,4) have "0 < ?H" "0 < ?W" by simp_all
  with cells have "vs' ! (0 * ?H + 0) = vs ! (0 * ?W + 0)" by blast
  then have zero: "vs' ! 0 = vs ! 0" by simp
  from r d l cells p zero last show ?thesis by (intro exI [of _ vs']) simp
qed

theorem transpose_rectangular_witness:
  "matrix_transpose \<lparr>height = 2, width = 3, values = Some [1, 2, 3, 4, 5, 6 :: real]\<rparr>
     = Some (Inr \<lparr>height = 3, width = 2, values = Some [1, 4, 2, 5, 3, 6]\<rparr>)"
proof -
  let ?m = "\<lparr>height = 2, width = 3, values = Some [1, 2, 3, 4, 5, 6 :: real]\<rparr>"
  have h: "valid_matrix ?m" "values ?m = Some [1, 2, 3, 4, 5, 6]" "2 \<le> unat (height ?m)"
    "2 \<le> unat (width ?m)" "height ?m \<noteq> width ?m"
    "(unat (height ?m) * unat (width ?m) - 2) * unat (height ?m) < 2 ^ 64"
    by (simp_all add: valid_matrix_def)
  from transpose_rectangular [OF h] obtain vs' where
    r: "matrix_transpose ?m = Some (Inr \<lparr>height = width ?m, width = height ?m, values = Some vs'\<rparr>)"
    and l: "length vs' = length [1, 2, 3, 4, 5, 6 :: real]"
    and c: "\<forall>r < unat (height ?m). \<forall>c < unat (width ?m).
              vs' ! (c * unat (height ?m) + r) = [1, 2, 3, 4, 5, 6 :: real] ! (r * unat (width ?m) + c)"
    by blast
  have c': "vs' ! (c * 2 + r) = [1, 2, 3, 4, 5, 6 :: real] ! (r * 3 + c)" if "r < 2" "c < 3" for r c
    using c that by simp
  have e: "vs' ! 0 = 1" "vs' ! 1 = 4" "vs' ! 2 = 2" "vs' ! 3 = 5" "vs' ! 4 = 3" "vs' ! 5 = 6"
    using c' [of 0 0] c' [of 1 0] c' [of 0 1] c' [of 1 1] c' [of 0 2] c' [of 1 2]
    by simp_all
  from l obtain x0 x1 x2 x3 x4 x5 where v: "vs' = [x0, x1, x2, x3, x4, x5]"
    by (auto simp: length_Suc_conv)
  from e have "vs' = [1, 4, 2, 5, 3, 6]" unfolding v by simp
  with r show ?thesis by simp
qed

text \<open>
  Claim C1 as stated, for every matrix with \<open>H \<ge> 2\<close>, \<open>W \<ge> 2\<close>, \<open>H \<noteq> W\<close>, fails: on a valid
  \<open>2 ^ 32 \<times> 2\<close> matrix the product \<open>i * height\<close> wraps around and \<^verbatim>\<open>matrix_transpose\<close> never
  returns.
\<close>

theorem transpose_4294967296_by_2_hangs:
  "matrix_transpose \<lparr>height = 4294967296, width = 2,
       values = Some (replicate 8589934592 (0 :: real))\<rparr> = None"
  by (rule rectangle_overflow_hangs) simp_all

section \<open>The square path\<close>

lemma flat_index_eq:
  fixes n r c r' c' :: nat
  assumes "c < n" "c' < n"
  shows "(r * n + c = r' * n + c') = (r = r' \<and> c = c')"
proof
  assume e: "r * n + c = r' * n + c'"
  from assms have "(r * n + c) div n = r" "(r * n + c) mod n = c"
    "(r' * n + c') div n = r'" "(r' * n + c') mod n = c'" by simp_all
  with e show "r = r' \<and> c = c'" by metis
qed simp

lemma square_swap_step:
  fixes m :: "'a matrix"
  assumes sq: "width m = height m" and len: "length ws = unat (height m) * unat (height m)"
    and fit: "unat (height m) * unat (height m) < 2 ^ 64"
    and i: "i < height m" and j: "j < height m"
  shows "(case matrix_get (m\<lparr>values := Some ws\<rparr>) i j of Inl e \<Rightarrow> Inl e
            | Inr temp \<Rightarrow>
                (case matrix_get (m\<lparr>values := Some ws\<rparr>) j i of Inl e \<Rightarrow> Inl e
                 | Inr x \<Rightarrow>
                     (case matrix_set (m\<lparr>values := Some ws\<rparr>) i j x of Inl e \<Rightarrow> Inl e
                      | Inr m \<Rightarrow> matrix_set m j i temp)))
         = Inr (m\<lparr>values := Some (ws[unat i * unat (height m) + unat j := ws ! (unat j * unat (height m) + unat i),
                                     unat j * unat (height m) + unat i := ws ! (unat i * unat (height m) + unat j)])\<rparr>)"
proof -
  let ?n = "unat (height m)"
  let ?m = "m\<lparr>values := Some ws\<rparr>"
  let ?ws1 = "ws[unat i * ?n + unat j := ws ! (unat j * ?n + unat i)]"
  let ?m1 = "m\<lparr>values := Some ?ws1\<rparr>"
  have v: "valid_matrix ?m" "values ?m = Some ws" using sq len fit by (simp_all add: valid_matrix_def)
  have v1: "valid_matrix ?m1" "values ?m1 = Some ?ws1" using sq len fit by (simp_all add: valid_matrix_def)
  have i': "i < height ?m" "i < width ?m" "i < height ?m1" "i < width ?m1"
    and j': "j < height ?m" "j < width ?m" "j < height ?m1" "j < width ?m1"
    using i j sq by simp_all
  have g1: "matrix_get ?m i j = Inr (ws ! (unat i * ?n + unat j))"
    using matrix_get_valid [OF v i'(1) j'(2)] sq by simp
  have g2: "matrix_get ?m j i = Inr (ws ! (unat j * ?n + unat i))"
    using matrix_get_valid [OF v j'(1) i'(2)] sq by simp
  have s1: "matrix_set ?m i j x = Inr (m\<lparr>values := Some (ws[unat i * ?n + unat j := x])\<rparr>)" for x
    using matrix_set_valid [OF v i'(1) j'(2)] sq by simp
  have s2: "matrix_set ?m1 j i x = Inr (m\<lparr>values := Some (?ws1[unat j * ?n + unat i := x])\<rparr>)" for x
    using matrix_set_valid [OF v1 j'(3) i'(4)] sq by simp
  show ?thesis by (simp add: g1 g2 s1 s2)
qed

lemma square_inner_loop:
  fixes m :: "'a matrix"
  assumes sq: "width m = height m"
    and fit: "unat (height m) * unat (height m) < 2 ^ 64"
    and i: "i < height m"
    and len: "length ws = unat (height m) * unat (height m)"
    and Q: "\<forall>r < unat (height m). \<forall>c < unat (height m).
              ws ! (r * unat (height m) + c)
                = (if r < unat i \<or> c < unat i then vs ! (c * unat (height m) + r)
                   else vs ! (r * unat (height m) + c))"
  shows "\<exists>ws'. for_loop (i + 1) (height m) (\<lambda>j m.
            case matrix_get m i j of Inl e \<Rightarrow> Inl e
            | Inr temp \<Rightarrow>
                (case matrix_get m j i of Inl e \<Rightarrow> Inl e
                 | Inr x \<Rightarrow>
                     (case matrix_set m i j x of Inl e \<Rightarrow> Inl e
                      | Inr m \<Rightarrow> matrix_set m j i temp))) (m\<lparr>values := Some ws\<rparr>)
            = Inr (m\<lparr>values := Some ws'\<rparr>)
          \<and> length ws' = unat (height m) * unat (height m)
          \<and> (\<forall>r < unat (height m). \<forall>c < unat (height m).
              ws' ! (r * unat (height m) + c)
                = (if r < Suc (unat i) \<or> c < Suc (unat i) then vs ! (c * unat (height m) + r)
                   else vs ! (r * unat (height m) + c)))"
proof -
  let ?n = "unat (height m)"
  let ?ui = "unat i"
  let ?body = "\<lambda>j m.
            case matrix_get m i j of Inl e \<Rightarrow> Inl e
            | Inr temp \<Rightarrow>
                (case matrix_get m j i of Inl e \<Rightarrow> Inl e
                 | Inr x \<Rightarrow>
                     (case matrix_set m i j x of Inl e \<Rightarrow> Inl e
                      | Inr m \<Rightarrow> matrix_set m j i temp))"
  let ?done = "\<lambda>j r c. r < ?ui \<or> c < ?ui \<or> (r = ?ui \<and> c < j) \<or> (c = ?ui \<and> r < j)"
  let ?I = "\<lambda>j s. \<exists>ws1. s = m\<lparr>values := Some ws1\<rparr> \<and> length ws1 = ?n * ?n \<and> ?ui < unat j
      \<and> (\<forall>r < ?n. \<forall>c < ?n. ws1 ! (r * ?n + c)
            = (if ?done (unat j) r c then vs ! (c * ?n + r) else vs ! (r * ?n + c)))"
  from i have ui: "?ui < ?n" by (simp add: word_less_nat_alt)
  have "\<exists>s'. for_loop (i + 1) (height m) ?body (m\<lparr>values := Some ws\<rparr>) = Inr s' \<and> ?I (height m) s'"
  proof (rule for_loop_rule [where I = ?I])
    show "i + 1 \<le> height m" using i by (rule inc_le)
    have "ws ! (r * ?n + c) = (if ?done (unat (i + 1)) r c then vs ! (c * ?n + r) else vs ! (r * ?n + c))"
      if "r < ?n" "c < ?n" for r c
      using Q that by (auto simp: unat_plus1 [OF i] less_Suc_eq)
    then show "?I (i + 1) (m\<lparr>values := Some ws\<rparr>)"
      using len by (intro exI [of _ ws]) (simp add: unat_plus1 [OF i])
  next
    fix j s assume j: "j < height m" and "?I j s"
    then obtain ws1 where s: "s = m\<lparr>values := Some ws1\<rparr>" and l1: "length ws1 = ?n * ?n"
      and ij: "?ui < unat j"
      and inv: "\<forall>r < ?n. \<forall>c < ?n. ws1 ! (r * ?n + c)
            = (if ?done (unat j) r c then vs ! (c * ?n + r) else vs ! (r * ?n + c))" by blast
    let ?uj = "unat j"
    from j have uj: "?uj < ?n" by (simp add: word_less_nat_alt)
    let ?a = "?ui * ?n + ?uj" and ?b = "?uj * ?n + ?ui"
    let ?ws2 = "ws1[?a := ws1 ! ?b, ?b := ws1 ! ?a]"
    have step: "?body j s = Inr (m\<lparr>values := Some ?ws2\<rparr>)"
      unfolding s by (rule square_swap_step [OF sq l1 fit i j])
    have a: "?a < length ws1" and b: "?b < length ws1"
      unfolding l1 using ui uj by (simp_all add: flat_index_less)
    have va: "ws1 ! ?a = vs ! ?a" using inv ui uj ij by simp
    have vb: "ws1 ! ?b = vs ! ?b" using inv ui uj ij by simp
    have "?ws2 ! (r * ?n + c)
        = (if ?done (unat (j + 1)) r c then vs ! (c * ?n + r) else vs ! (r * ?n + c))"
      if rc: "r < ?n" "c < ?n" for r c
    proof -
      from rc have k: "r * ?n + c < length ws1" unfolding l1 by (rule flat_index_less)
      consider (ij) "r = ?ui" "c = ?uj" | (ji) "r = ?uj" "c = ?ui"
        | (other) "\<not> (r = ?ui \<and> c = ?uj)" "\<not> (r = ?uj \<and> c = ?ui)" by blast
      then show ?thesis
      proof cases
        case ij
        with a b vb ij show ?thesis
          using \<open>?ui < ?uj\<close> by (simp add: nth_list_update flat_index_eq ui uj unat_plus1 [OF j])
      next
        case ji
        with a b va show ?thesis
          using \<open>?ui < ?uj\<close> by (simp add: nth_list_update flat_index_eq ui uj unat_plus1 [OF j])
      next
        case other
        then have "r * ?n + c \<noteq> ?a" "r * ?n + c \<noteq> ?b"
          using rc ui uj by (simp_all add: flat_index_eq)
        then have "?ws2 ! (r * ?n + c) = ws1 ! (r * ?n + c)" by simp
        also have "\<dots> = (if ?done ?uj r c then vs ! (c * ?n + r) else vs ! (r * ?n + c))"
          using inv rc by blast
        also have "?done ?uj r c = ?done (unat (j + 1)) r c"
          using other by (auto simp: unat_plus1 [OF j] less_Suc_eq)
        finally show ?thesis .
      qed
    qed
    then have "?I (j + 1) (m\<lparr>values := Some ?ws2\<rparr>)"
      using l1 ij by (intro exI [of _ ?ws2]) (simp add: unat_plus1 [OF j])
    with step show "\<exists>s'. ?body j s = Inr s' \<and> ?I (j + 1) s'" by blast
  qed
  then obtain ws' where r: "for_loop (i + 1) (height m) ?body (m\<lparr>values := Some ws\<rparr>) = Inr (m\<lparr>values := Some ws'\<rparr>)"
    and l: "length ws' = ?n * ?n"
    and inv: "\<forall>r < ?n. \<forall>c < ?n. ws' ! (r * ?n + c)
            = (if ?done ?n r c then vs ! (c * ?n + r) else vs ! (r * ?n + c))" by blast
  have "ws' ! (r * ?n + c) = (if r < Suc ?ui \<or> c < Suc ?ui then vs ! (c * ?n + r) else vs ! (r * ?n + c))"
    if rc: "r < ?n" "c < ?n" for r c
  proof -
    from rc have "?done ?n r c = (r < Suc ?ui \<or> c < Suc ?ui)" by auto
    with inv rc show ?thesis by simp
  qed
  with r l show ?thesis by blast
qed

lemma square_result:
  fixes m :: "'a matrix"
  assumes v: "valid_matrix m" and vs: "values m = Some vs" and sq: "width m = height m"
  shows "\<exists>vs'. matrix__transpose_square m = Inr (m\<lparr>values := Some vs'\<rparr>)
          \<and> length vs' = length vs
          \<and> (\<forall>r < unat (height m). \<forall>c < unat (height m).
                vs' ! (r * unat (height m) + c) = vs ! (c * unat (height m) + r))"
proof -
  let ?n = "unat (height m)"
  let ?inner = "\<lambda>i j (m :: 'a matrix).
            case matrix_get m i j of Inl e \<Rightarrow> Inl e
            | Inr temp \<Rightarrow>
                (case matrix_get m j i of Inl e \<Rightarrow> Inl e
                 | Inr x \<Rightarrow>
                     (case matrix_set m i j x of Inl e \<Rightarrow> Inl e
                      | Inr m \<Rightarrow> matrix_set m j i temp))"
  let ?body = "\<lambda>i (m :: 'a matrix). for_loop (i + 1) (height m) (?inner i) m"
  from v vs sq have len: "length vs = ?n * ?n" and fit: "?n * ?n < 2 ^ 64"
    by (simp_all add: valid_matrix_def)
  have m_eq: "m\<lparr>values := Some vs\<rparr> = m" using vs by simp
  have unfold: "matrix__transpose_square m = for_loop 0 (height m - 1) ?body m"
    using sq by (simp add: matrix__transpose_square_def)
  show ?thesis
  proof (cases "height m = 0")
    case True
    have "\<exists>s'. for_loop 0 (height m - 1) ?body m = Inr s' \<and> s' = m"
    proof (rule for_loop_rule [where I = "\<lambda>i s. s = m"])
      show "0 \<le> height m - 1" by simp
      show "m = m" ..
    next
      fix i s assume "s = m"
      then show "\<exists>s'. ?body i s = Inr s' \<and> s' = m"
        using True by (subst for_loop.simps) simp
    qed
    with unfold have "matrix__transpose_square m = Inr (m\<lparr>values := Some vs\<rparr>)"
      by (simp add: m_eq)
    moreover from True have "?n = 0" by simp
    ultimately show ?thesis by (intro exI [of _ vs]) simp
  next
    case False
    then have n0: "0 < ?n" by (simp add: unat_gt_0)
    from False have bound: "unat (height m - 1) = ?n - 1" by (simp add: unat_minus_one)
    let ?Q = "\<lambda>k ws. \<forall>r < ?n. \<forall>c < ?n. ws ! (r * ?n + c)
                = (if r < k \<or> c < k then vs ! (c * ?n + r) else vs ! (r * ?n + c))"
    let ?I = "\<lambda>i s. \<exists>ws. s = m\<lparr>values := Some ws\<rparr> \<and> length ws = ?n * ?n \<and> ?Q (unat i) ws"
    have "\<exists>s'. for_loop 0 (height m - 1) ?body m = Inr s' \<and> ?I (height m - 1) s'"
    proof (rule for_loop_rule [where I = ?I])
      show "0 \<le> height m - 1" by simp
      show "?I 0 m" using len m_eq by (intro exI [of _ vs]) simp
    next
      fix i s assume i: "i < height m - 1" and "?I i s"
      then obtain ws where s: "s = m\<lparr>values := Some ws\<rparr>" and l: "length ws = ?n * ?n"
        and Q: "?Q (unat i) ws" by blast
      from i bound have "unat i < ?n - 1" by (simp add: word_less_nat_alt)
      then have i': "i < height m" by (simp add: word_less_nat_alt)
      from square_inner_loop [OF sq fit i' l Q] obtain ws' where
        r: "for_loop (i + 1) (height m) (?inner i) (m\<lparr>values := Some ws\<rparr>) = Inr (m\<lparr>values := Some ws'\<rparr>)"
        and l': "length ws' = ?n * ?n" and Q': "?Q (Suc (unat i)) ws'" by blast
      from r s have "?body i s = Inr (m\<lparr>values := Some ws'\<rparr>)" by simp
      moreover from l' Q' have "?I (i + 1) (m\<lparr>values := Some ws'\<rparr>)"
        by (intro exI [of _ ws']) (simp add: unat_plus1 [OF i])
      ultimately show "\<exists>s'. ?body i s = Inr s' \<and> ?I (i + 1) s'" by blast
    qed
    then obtain ws where r: "for_loop 0 (height m - 1) ?body m = Inr (m\<lparr>values := Some ws\<rparr>)"
      and l: "length ws = ?n * ?n" and Q: "?Q (?n - 1) ws" unfolding bound by blast
    have "ws ! (r * ?n + c) = vs ! (c * ?n + r)" if rc: "r < ?n" "c < ?n" for r c
    proof (cases "r < ?n - 1 \<or> c < ?n - 1")
      case True
      with Q rc show ?thesis by simp
    next
      case False
      with rc have "r = c" by linarith
      with Q rc False show ?thesis by simp
    qed
    with r l len unfold show ?thesis by (intro exI [of _ ws]) simp
  qed
qed

section \<open>The vector path\<close>

lemma scast_ucast_small:
  fixes h :: size_t
  assumes "unat h < 2 ^ 31"
  shows "(scast (ucast h :: 32 word) :: size_t) = h"
proof -
  from assms have tb: "take_bit 31 (unat h) = unat h" by (simp add: take_bit_nat_eq_self)
  have hb: "k < 31" if "bit h k" for k
  proof -
    from that have "bit (unat h) k" by (simp add: bit_unsigned_iff)
    then have "bit (take_bit 31 (unat h)) k" by (simp only: tb)
    then show ?thesis by (simp add: bit_take_bit_iff)
  qed
  show ?thesis
  proof (rule bit_word_eqI)
    fix n assume "n < LENGTH(64)"
    show "bit (scast (ucast h :: 32 word) :: size_t) n = bit h n"
      using hb [of n] hb [of 31] by (auto simp: bit_word_scast_iff bit_ucast_iff dest: bit_imp_le_length)
  qed
qed

lemma vector_result:
  fixes m :: "'a matrix"
  assumes "width m = 1 \<or> height m = 1" and "unat (height m) < 2 ^ 31"
  shows "matrix__transpose_single_col_or_row m = Inr (m\<lparr>height := width m, width := height m\<rparr>)"
  using assms by (simp add: matrix__transpose_single_col_or_row_def Let_def scast_ucast_small)

section \<open>Transposing twice (claim C2)\<close>

lemma list_eq_by_cells:
  fixes H W :: nat
  assumes "length xs = H * W" "length ys = H * W"
    and "\<forall>r < H. \<forall>c < W. xs ! (r * W + c) = ys ! (r * W + c)"
  shows "xs = ys"
proof (rule nth_equalityI)
  show "length xs = length ys" using assms(1,2) by simp
next
  fix k assume "k < length xs"
  with assms(1) have k: "k < H * W" by simp
  then have W: "0 < W" by (cases W) simp_all
  from k have "k div W < H" by (simp add: less_mult_imp_div_less)
  moreover from W have "k mod W < W" by simp
  ultimately have "xs ! (k div W * W + k mod W) = ys ! (k div W * W + k mod W)"
    using assms(3) by blast
  then show "xs ! k = ys ! k" by simp
qed

lemma transpose_twice_vector:
  fixes m :: "'a matrix"
  assumes v: "valid_matrix m" and d: "width m = 1 \<or> height m = 1"
    and h: "unat (height m) < 2 ^ 31" and w: "unat (width m) < 2 ^ 31"
  shows "matrix_transpose m = Some (Inr (m\<lparr>height := width m, width := height m\<rparr>))"
    and "matrix_transpose (m\<lparr>height := width m, width := height m\<rparr>) = Some (Inr m)"
proof -
  let ?m' = "m\<lparr>height := width m, width := height m\<rparr>"
  from v have nn: "values m \<noteq> None" by (auto simp: valid_matrix_def split: option.splits)
  from d nn show "matrix_transpose m = Some (Inr ?m')"
    by (simp add: matrix_transpose_def vector_result [OF d h])
  have d': "width ?m' = 1 \<or> height ?m' = 1" using d by auto
  have h': "unat (height ?m') < 2 ^ 31" using w by simp
  have "?m'\<lparr>height := width ?m', width := height ?m'\<rparr> = m" by simp
  with d' nn show "matrix_transpose ?m' = Some (Inr m)"
    by (simp add: matrix_transpose_def vector_result [OF d' h'])
qed

lemma transpose_twice_square:
  fixes m :: "'a matrix"
  assumes v: "valid_matrix m" and d: "width m \<noteq> 1" "height m \<noteq> 1" "width m = height m"
  shows "\<exists>m'. matrix_transpose m = Some (Inr m') \<and> height m' = width m \<and> width m' = height m
          \<and> matrix_transpose m' = Some (Inr m)"
proof -
  let ?n = "unat (height m)"
  from v obtain vs where vs: "values m = Some vs" and len: "length vs = ?n * ?n"
    using d(3) by (auto simp: valid_matrix_def split: option.splits)
  from square_result [OF v vs d(3)] obtain vs' where
    r: "matrix__transpose_square m = Inr (m\<lparr>values := Some vs'\<rparr>)"
    and l: "length vs' = length vs"
    and c: "\<forall>r < ?n. \<forall>c < ?n. vs' ! (r * ?n + c) = vs ! (c * ?n + r)" by blast
  let ?m' = "m\<lparr>values := Some vs'\<rparr>"
  have v': "valid_matrix ?m'" and vs': "values ?m' = Some vs'" and d': "width ?m' = height ?m'"
    using v vs l d(3) by (simp_all add: valid_matrix_def)
  from square_result [OF v' vs' d'] obtain vs'' where
    r': "matrix__transpose_square ?m' = Inr (?m'\<lparr>values := Some vs''\<rparr>)"
    and l': "length vs'' = length vs'"
    and c': "\<forall>r < ?n. \<forall>c < ?n. vs'' ! (r * ?n + c) = vs' ! (c * ?n + r)" by auto
  have "vs'' = vs"
  proof (rule list_eq_by_cells [where H = ?n and W = ?n])
    show "length vs'' = ?n * ?n" "length vs = ?n * ?n" using l l' len by simp_all
    show "\<forall>r < ?n. \<forall>c < ?n. vs'' ! (r * ?n + c) = vs ! (r * ?n + c)" using c c' by simp
  qed
  with vs have restored: "?m'\<lparr>values := Some vs''\<rparr> = m" by simp
  from vs d have "matrix_transpose m = Some (matrix__transpose_square m)"
    by (simp add: matrix_transpose_def)
  moreover from d have "matrix_transpose ?m' = Some (matrix__transpose_square ?m')"
    by (simp add: matrix_transpose_def)
  ultimately show ?thesis using r r' restored d(3) by (intro exI [of _ ?m']) simp
qed

lemma transpose_twice_rect:
  fixes m :: "'a matrix"
  assumes v: "valid_matrix m"
    and H: "2 \<le> unat (height m)" and W: "2 \<le> unat (width m)" and ne: "height m \<noteq> width m"
    and noov: "(unat (height m) * unat (width m) - 2) * unat (height m) < 2 ^ 64"
    and noov': "(unat (height m) * unat (width m) - 2) * unat (width m) < 2 ^ 64"
  shows "\<exists>m'. matrix_transpose m = Some (Inr m') \<and> height m' = width m \<and> width m' = height m
          \<and> matrix_transpose m' = Some (Inr m)"
proof -
  let ?H = "unat (height m)" and ?W = "unat (width m)"
  from v obtain vs where vs: "values m = Some vs" and len: "length vs = ?H * ?W"
    and fit: "?H * ?W < 2 ^ 64"
    by (auto simp: valid_matrix_def split: option.splits)
  from transpose_rect_result [OF v vs H W ne noov] obtain vs' where
    r: "matrix_transpose m = Some (Inr \<lparr>height = width m, width = height m, values = Some vs'\<rparr>)"
    and l: "length vs' = length vs"
    and p: "\<forall>i < ?H * ?W - 1. vs' ! ((i * ?H) mod (?H * ?W - 1)) = vs ! i"
    and last: "vs' ! (?H * ?W - 1) = vs ! (?H * ?W - 1)" by blast
  let ?m' = "\<lparr>height = width m, width = height m, values = Some vs'\<rparr>"
  have v': "valid_matrix ?m'" and vs': "values ?m' = Some vs'"
    using l len fit by (simp_all add: valid_matrix_def mult.commute)
  have H': "2 \<le> unat (height ?m')" and W': "2 \<le> unat (width ?m')" and ne': "height ?m' \<noteq> width ?m'"
    using H W ne by simp_all
  have noov2: "(unat (height ?m') * unat (width ?m') - 2) * unat (height ?m') < 2 ^ 64"
    using noov' by (simp add: mult.commute)
  from transpose_rect_result [OF v' vs' H' W' ne' noov2] obtain vs'' where
    r': "matrix_transpose ?m' = Some (Inr \<lparr>height = height m, width = width m, values = Some vs''\<rparr>)"
    and l': "length vs'' = length vs'"
    and p': "\<forall>i < ?W * ?H - 1. vs'' ! ((i * ?W) mod (?W * ?H - 1)) = vs' ! i"
    and last': "vs'' ! (?W * ?H - 1) = vs' ! (?W * ?H - 1)" by auto
  have "vs'' = vs"
  proof (rule list_eq_by_cells [where H = ?H and W = ?W])
    show "length vs'' = ?H * ?W" "length vs = ?H * ?W" using l l' len by simp_all
    show "\<forall>r < ?H. \<forall>c < ?W. vs'' ! (r * ?W + c) = vs ! (r * ?W + c)"
    proof (intro allI impI)
      fix r c assume rc: "r < ?H" "c < ?W"
      have "vs'' ! (r * ?W + c) = vs' ! (c * ?H + r)"
        using permuted_cells [OF p' last' rc(2,1)] .
      also have "\<dots> = vs ! (r * ?W + c)"
        using permuted_cells [OF p last rc] .
      finally show "vs'' ! (r * ?W + c) = vs ! (r * ?W + c)" .
    qed
  qed
  with vs have "\<lparr>height = height m, width = width m, values = Some vs''\<rparr> = m" by simp
  with r r' show ?thesis by (intro exI [of _ ?m']) simp
qed

lemma rect_dims_ge2:
  fixes m :: "'a matrix"
  assumes "width m \<noteq> 1" "height m \<noteq> 1" "height m \<noteq> 0" "width m \<noteq> 0"
  shows "2 \<le> unat (height m)" "2 \<le> unat (width m)"
proof -
  have "unat x \<noteq> 1" if "x \<noteq> 1" for x :: size_t
    using that unat_eq_iff [of x 1] by simp
  with assms have "unat (height m) \<noteq> 0" "unat (height m) \<noteq> 1" "unat (width m) \<noteq> 0" "unat (width m) \<noteq> 1"
    by (simp_all add: unat_eq_zero)
  then show "2 \<le> unat (height m)" "2 \<le> unat (width m)" by linarith+
qed

text \<open>
  Claim C2, amended. For every valid matrix \<open>m\<close> such that, on the vector path, both
  dimensions are below \<open>2 ^ 31\<close> and, on the two rectangular paths, the matrix has at least
  one cell and the index products of both transpositions fit \<^verbatim>\<open>size_t\<close>
  (\<open>(H * W - 2) * max H W < 2 ^ 64\<close>), \<^verbatim>\<open>matrix_transpose\<close> returns a matrix \<open>m'\<close> with the
  dimensions exchanged, and \<^verbatim>\<open>matrix_transpose\<close> on \<open>m'\<close> returns \<open>m\<close> itself: the height,
  the width and every cell are restored. Square matrices need no side condition.
\<close>

theorem transpose_involution:
  fixes m :: "'a matrix"
  assumes "valid_matrix m"
    and "width m = 1 \<or> height m = 1 \<longrightarrow> unat (height m) < 2 ^ 31 \<and> unat (width m) < 2 ^ 31"
    and "width m \<noteq> 1 \<and> height m \<noteq> 1 \<and> width m \<noteq> height m \<longrightarrow>
           height m \<noteq> 0 \<and> width m \<noteq> 0
           \<and> (unat (height m) * unat (width m) - 2) * unat (height m) < 2 ^ 64
           \<and> (unat (height m) * unat (width m) - 2) * unat (width m) < 2 ^ 64"
  shows "\<exists>m'. matrix_transpose m = Some (Inr m') \<and> height m' = width m \<and> width m' = height m
          \<and> matrix_transpose m' = Some (Inr m)"
proof (cases "width m = 1 \<or> height m = 1")
  case True
  with assms(2) have "unat (height m) < 2 ^ 31" "unat (width m) < 2 ^ 31" by simp_all
  from transpose_twice_vector [OF assms(1) True this] show ?thesis
    by (intro exI [of _ "m\<lparr>height := width m, width := height m\<rparr>"]) simp
next
  case False
  then have d: "width m \<noteq> 1" "height m \<noteq> 1" by simp_all
  show ?thesis
  proof (cases "width m = height m")
    case True
    with assms(1) d show ?thesis by (rule transpose_twice_square)
  next
    case False
    with assms(3) d have nz: "height m \<noteq> 0" "width m \<noteq> 0"
      and noov: "(unat (height m) * unat (width m) - 2) * unat (height m) < 2 ^ 64"
        "(unat (height m) * unat (width m) - 2) * unat (width m) < 2 ^ 64" by simp_all
    from False have ne: "height m \<noteq> width m" by simp
    from assms(1) rect_dims_ge2 [OF d nz] ne noov show ?thesis by (rule transpose_twice_rect)
  qed
qed

theorem transpose_involution_witness:
  "(\<exists>m'. matrix_transpose \<lparr>height = 2, width = 1, values = Some [1, 2 :: real]\<rparr> = Some (Inr m')
        \<and> matrix_transpose m' = Some (Inr \<lparr>height = 2, width = 1, values = Some [1, 2 :: real]\<rparr>))
   \<and> (\<exists>m'. matrix_transpose \<lparr>height = 3, width = 3, values = Some (map real [0..<9])\<rparr> = Some (Inr m')
        \<and> matrix_transpose m' = Some (Inr \<lparr>height = 3, width = 3, values = Some (map real [0..<9])\<rparr>))
   \<and> (\<exists>m'. matrix_transpose \<lparr>height = 2, width = 3, values = Some (map real [0..<6])\<rparr> = Some (Inr m')
        \<and> matrix_transpose m' = Some (Inr \<lparr>height = 2, width = 3, values = Some (map real [0..<6])\<rparr>))
   \<and> (\<exists>m'. matrix_transpose \<lparr>height = 16, width = 8, values = Some (map real [0..<128])\<rparr> = Some (Inr m')
        \<and> matrix_transpose m' = Some (Inr \<lparr>height = 16, width = 8, values = Some (map real [0..<128])\<rparr>))"
proof -
  have "\<exists>m'. matrix_transpose m = Some (Inr m') \<and> matrix_transpose m' = Some (Inr m)"
    if "valid_matrix m"
      "width m = 1 \<or> height m = 1 \<longrightarrow> unat (height m) < 2 ^ 31 \<and> unat (width m) < 2 ^ 31"
      "width m \<noteq> 1 \<and> height m \<noteq> 1 \<and> width m \<noteq> height m \<longrightarrow>
           height m \<noteq> 0 \<and> width m \<noteq> 0
           \<and> (unat (height m) * unat (width m) - 2) * unat (height m) < 2 ^ 64
           \<and> (unat (height m) * unat (width m) - 2) * unat (width m) < 2 ^ 64"
    for m :: "real matrix"
    using transpose_involution [OF that] by blast
  note t = this
  show ?thesis
    by (intro conjI; rule t) (simp_all add: valid_matrix_def)
qed

text \<open>
  Claim C2 as stated, for every matrix, fails: a \<open>0 \<times> 2\<close> matrix with an empty buffer
  satisfies the validity invariant, and its transposition fails the assertion of the
  small-rectangle path, so nothing is restored.
\<close>

theorem transpose_0_by_2_aborts:
  "matrix_transpose \<lparr>height = 0, width = 2, values = Some ([] :: real list)\<rparr> = Some (Inl AssertFail)"
  by (simp add: matrix_transpose_def matrix__transpose_small_rectangle_def matrix_len_def)

section \<open>Termination (claim C6)\<close>

text \<open>
  Claim C6, amended. For every valid matrix that, when it is neither a vector nor square,
  has at least one cell and index products that fit \<^verbatim>\<open>size_t\<close> (\<open>(H * W - 2) * H < 2 ^ 64\<close>),
  \<^verbatim>\<open>matrix_transpose\<close> completes: it returns a matrix. The vector and the square path
  complete on every valid matrix; on the rectangular paths each walk returns to its start
  and each walk resolves at least one more index.
\<close>

theorem transpose_completes:
  fixes m :: "'a matrix"
  assumes "valid_matrix m"
    and "width m \<noteq> 1 \<and> height m \<noteq> 1 \<and> width m \<noteq> height m \<longrightarrow>
           height m \<noteq> 0 \<and> width m \<noteq> 0
           \<and> (unat (height m) * unat (width m) - 2) * unat (height m) < 2 ^ 64"
  shows "\<exists>m'. matrix_transpose m = Some (Inr m')"
proof -
  from assms(1) obtain vs where vs: "values m = Some vs"
    by (auto simp: valid_matrix_def split: option.splits)
  show ?thesis
  proof (cases "width m = 1 \<or> height m = 1")
    case True
    with vs show ?thesis
      by (simp add: matrix_transpose_def matrix__transpose_single_col_or_row_def Let_def)
  next
    case False
    then have d: "width m \<noteq> 1" "height m \<noteq> 1" by simp_all
    show ?thesis
    proof (cases "width m = height m")
      case True
      from square_result [OF assms(1) vs True] vs d True show ?thesis
        by (auto simp: matrix_transpose_def)
    next
      case False
      with assms(2) d have nz: "height m \<noteq> 0" "width m \<noteq> 0"
        and noov: "(unat (height m) * unat (width m) - 2) * unat (height m) < 2 ^ 64" by simp_all
      from False have ne: "height m \<noteq> width m" by simp
      from transpose_rect_result [OF assms(1) vs rect_dims_ge2 [OF d nz] ne noov]
      show ?thesis by blast
    qed
  qed
qed

theorem transpose_completes_witness:
  "(\<exists>m'. matrix_transpose \<lparr>height = 1, width = 2, values = Some [1, 2 :: real]\<rparr> = Some (Inr m'))
   \<and> (\<exists>m'. matrix_transpose \<lparr>height = 3, width = 3, values = Some (map real [0..<9])\<rparr> = Some (Inr m'))
   \<and> (\<exists>m'. matrix_transpose \<lparr>height = 3, width = 2, values = Some (map real [0..<6])\<rparr> = Some (Inr m'))
   \<and> (\<exists>m'. matrix_transpose \<lparr>height = 8, width = 16, values = Some (map real [0..<128])\<rparr> = Some (Inr m'))"
  by (intro conjI; rule transpose_completes) (simp_all add: valid_matrix_def)

text \<open>
  Claim C6 as stated, for every valid matrix, fails: on a valid \<open>2 ^ 32 \<times> 3\<close> matrix the inner
  loop of the rectangle path never comes back to its start.
\<close>

theorem transpose_4294967296_by_3_hangs:
  "matrix_transpose \<lparr>height = 4294967296, width = 3,
       values = Some (replicate 12884901888 (0 :: real))\<rparr> = None"
  by (rule rectangle_overflow_hangs) simp_all

section \<open>Zero-element rectangles (claim C9)\<close>

text \<open>
  Claim C9. For a matrix with a buffer and with \<open>height = 0\<close>, \<open>width \<ge> 2\<close> (or the other way
  round), \<^verbatim>\<open>matrix_len(m) - 1\<close> wraps around to \<open>2 ^ 64 - 1\<close>, the dispatch of
  \<^verbatim>\<open>matrix_transpose\<close> reaches the small-rectangle path, and that path fails its assertion
  \<^verbatim>\<open>size < 64\<close>: the transposition aborts.
\<close>

theorem transpose_zero_elements_aborts:
  assumes "values m \<noteq> None"
    and "(height m = 0 \<and> 2 \<le> width m) \<or> (width m = 0 \<and> 2 \<le> height m)"
  shows "matrix_len m - 1 = 18446744073709551615
       \<and> matrix_transpose m = matrix__transpose_small_rectangle m
       \<and> matrix__transpose_small_rectangle m = Some (Inl AssertFail)"
proof -
  have two: "\<not> (2 :: size_t) \<le> 1" "\<not> (2 :: size_t) \<le> 0" by (simp_all add: word_le_nat_alt)
  from assms(2) have len: "matrix_len m = 0" by (auto simp: matrix_len_def)
  from assms(2) two have ne: "width m \<noteq> 1" "height m \<noteq> 1" "width m \<noteq> height m" by auto
  from len have small: "matrix__transpose_small_rectangle m = Some (Inl AssertFail)"
    by (simp add: matrix__transpose_small_rectangle_def)
  from assms(1) ne len have "matrix_transpose m = matrix__transpose_small_rectangle m"
    by (auto simp: matrix_transpose_def)
  with small len show ?thesis by simp
qed


theorem transpose_zero_elements_aborts_witness:
  "matrix_len \<lparr>height = 0, width = 2, values = Some ([] :: real list)\<rparr> - 1 = 18446744073709551615
   \<and> matrix_transpose \<lparr>height = 0, width = 2, values = Some ([] :: real list)\<rparr> = Some (Inl AssertFail)
   \<and> matrix_transpose \<lparr>height = 3, width = 0, values = Some ([] :: real list)\<rparr> = Some (Inl AssertFail)"
  using transpose_zero_elements_aborts [of "\<lparr>height = 0, width = 2, values = Some ([] :: real list)\<rparr>"]
    transpose_zero_elements_aborts [of "\<lparr>height = 3, width = 0, values = Some ([] :: real list)\<rparr>"]
  by simp

section \<open>Row and column vectors (claim C5)\<close>

text \<open>
  Claim C5 at the input \<open>height = 2 ^ 31\<close>, \<open>width = 1\<close>: the buffer is untouched and the new
  height is the old width, but the old height went through \<^verbatim>\<open>int temp\<close>, so the new width
  is \<open>2 ^ 64 - 2 ^ 31\<close> and not \<open>2 ^ 31\<close>.
\<close>

theorem transpose_vector_int_truncation:
  "matrix_transpose \<lparr>height = 2147483648, width = 1, values = Some vs\<rparr>
     = Some (Inr \<lparr>height = 1, width = 18446744071562067968, values = Some vs\<rparr>)"
  by (simp add: matrix_transpose_def matrix__transpose_single_col_or_row_def)

section \<open>Destruction (claim C10)\<close>

text \<open>
  Claim C10. \<^verbatim>\<open>matrix_del\<close> on a matrix with a buffer succeeds, hands exactly that buffer to
  \<^verbatim>\<open>free\<close> and leaves \<^verbatim>\<open>values\<close> at \<^verbatim>\<open>NULL\<close>; on a matrix whose \<^verbatim>\<open>values\<close> is \<^verbatim>\<open>NULL\<close> it
  fails its assertion; so a second \<^verbatim>\<open>matrix_del\<close> on the struct left by the first one fails
  the assertion and hands nothing to \<^verbatim>\<open>free\<close>.
\<close>

theorem matrix_del_twice:
  "matrix_del (m\<lparr>values := Some buf\<rparr>) = Inr (m\<lparr>values := None\<rparr>, buf)
   \<and> values (fst (m\<lparr>values := None\<rparr>, buf)) = None
   \<and> matrix_del (m\<lparr>values := None\<rparr>) = Inl AssertFail"
  by (simp add: matrix_del_def)

end
